theory Spec2Isabelle
  imports Main "HOL-Library.Word" "HOL-Library.Char_ord" "HOL-Library.List_Lexorder"
begin

unbundle bit_operations_syntax

section \<open>The etcd physical backend\<close>

text \<open>
  This theory embeds the etcd physical backend (package \<open>physical\<close>): the path mapping
  (\<open>nodePath\<close>, \<open>nodePathDir\<close>, \<open>nodePathLock\<close>), the key-value operations
  (\<open>Put\<close>, \<open>Get\<close>, \<open>List\<close>) and the lock (\<open>isHeld\<close>, \<open>Lock\<close>, \<open>Unlock\<close>,
  \<open>watchForKeyRemoval\<close>).

  The backend calls three libraries that are not part of the package: Go's
  \<open>path/filepath\<close> and \<open>strings\<close>, Go's \<open>encoding/base64\<close>, and the go-etcd client.
  The first two are pure and are written out below after the library's algorithms (Unix
  separator, standard padded alphabet). The etcd client is the environment: it is a
  parameter of every operation, so every theorem holds for every behaviour of the store.
\<close>

subsection \<open>Go's \<open>strings\<close> and \<open>path/filepath\<close> (Unix)\<close>

definition HasPrefix :: "string \<Rightarrow> string \<Rightarrow> bool" where
  "HasPrefix s prefix = (length prefix \<le> length s \<and> take (length prefix) s = prefix)"

definition TrimPrefix :: "string \<Rightarrow> string \<Rightarrow> string" where
  "TrimPrefix s prefix = (if HasPrefix s prefix then drop (length prefix) s else s)"

text \<open>\<open>strings.Join(elems, sep)\<close>.\<close>

fun strings_Join :: "string list \<Rightarrow> string \<Rightarrow> string" where
  "strings_Join [] sep = []"
| "strings_Join [e] sep = e"
| "strings_Join (e # es) sep = e @ sep @ strings_Join es sep"

definition IsPathSeparator :: "char \<Rightarrow> bool" where
  "IsPathSeparator c = (c = CHR ''/'')"

text \<open>
  The inner loop of the \<open>..\<close> case of \<open>filepath.Clean\<close>, after \<open>out.w--\<close>:
  \<^verbatim>\<open>for out.w > dotdot && !os.IsPathSeparator(out.index(out.w)) { out.w-- }\<close>
  It returns the new write index.
\<close>

function backtrack :: "string \<Rightarrow> nat \<Rightarrow> nat \<Rightarrow> nat" where
  "backtrack out dotdot w =
     (if w > dotdot \<and> \<not> IsPathSeparator (out ! w) then backtrack out dotdot (w - 1) else w)"
  by pat_completeness auto
termination
  by (relation "measure (\<lambda>(out, dotdot, w). w)") auto

declare backtrack.simps [simp del]

text \<open>
  The main loop of \<open>filepath.Clean\<close>. The unread part of the path is the second argument;
  \<open>out\<close> is the content of the output buffer up to its write index \<open>out.w\<close>; \<open>dotdot\<close> is
  the index where a \<open>..\<close> must stop backtracking.
\<close>

function clean_loop :: "bool \<Rightarrow> string \<Rightarrow> string \<Rightarrow> nat \<Rightarrow> string" where
  "clean_loop rooted [] out dotdot = out"
| "clean_loop rooted (c # cs) out dotdot =
     (if IsPathSeparator c then
        \<comment> \<open>empty path element\<close>
        clean_loop rooted cs out dotdot
      else if c = CHR ''.'' \<and> (cs = [] \<or> IsPathSeparator (hd cs)) then
        \<comment> \<open>\<open>.\<close> element\<close>
        clean_loop rooted cs out dotdot
      else if c = CHR ''.'' \<and> hd cs = CHR ''.'' \<and> (tl cs = [] \<or> IsPathSeparator (hd (tl cs))) then
        \<comment> \<open>\<open>..\<close> element: remove to last separator\<close>
        (if length out > dotdot then
           clean_loop rooted (tl cs) (take (backtrack out dotdot (length out - 1)) out) dotdot
         else if \<not> rooted then
           (let out' = (if length out > 0 then out @ ''/'' else out) @ ''..''
            in clean_loop rooted (tl cs) out' (length out'))
         else clean_loop rooted (tl cs) out dotdot)
      else
        \<comment> \<open>real path element: add slash if needed, copy element\<close>
        (let out' = (if rooted \<and> length out \<noteq> 1 \<or> \<not> rooted \<and> length out \<noteq> 0
                     then out @ ''/'' else out)
         in clean_loop rooted (dropWhile (\<lambda>x. \<not> IsPathSeparator x) (c # cs))
              (out' @ takeWhile (\<lambda>x. \<not> IsPathSeparator x) (c # cs)) dotdot))"
  by pat_completeness auto
termination
proof (relation "measure (\<lambda>(rooted, path, out, dotdot). length path)")
  fix c :: char and cs :: string
  assume "\<not> IsPathSeparator c"
  then have "length (dropWhile (\<lambda>x. \<not> IsPathSeparator x) (c # cs)) < Suc (length cs)"
    by (simp add: le_imp_less_Suc length_dropWhile_le)
  then show "\<And>rooted out dotdot x.
      ((rooted, dropWhile (\<lambda>x. \<not> IsPathSeparator x) (c # cs),
        x @ takeWhile (\<lambda>x. \<not> IsPathSeparator x) (c # cs), dotdot),
       (rooted, c # cs, out, dotdot)) \<in> measure (\<lambda>(rooted, path, out, dotdot). length path)"
    by (simp del: dropWhile.simps)
qed simp_all

definition Clean :: "string \<Rightarrow> string" where
  "Clean path =
     (if path = [] then ''.''
      else let rooted = IsPathSeparator (hd path);
               out = (if rooted then clean_loop True (tl path) ''/'' 1
                      else clean_loop False path [] 0)
           in if out = [] then ''.'' else out)"

text \<open>\<open>filepath.Join\<close>: the elements from the first non-empty one on, joined by the
  separator and cleaned; the empty string if all are empty.\<close>

fun Join :: "string list \<Rightarrow> string" where
  "Join [] = []"
| "Join (e # es) = (if e \<noteq> [] then Clean (strings_Join (e # es) ''/'') else Join es)"

text \<open>\<open>filepath.Dir\<close>: all but the last element of the path, cleaned.\<close>

definition Dir :: "string \<Rightarrow> string" where
  "Dir path = Clean (rev (dropWhile (\<lambda>c. \<not> IsPathSeparator c) (rev path)))"

text \<open>\<open>filepath.Base\<close>: the last element of the path, trailing slashes removed first.\<close>

definition Base :: "string \<Rightarrow> string" where
  "Base path =
     (if path = [] then ''.''
      else let stripped = rev (dropWhile IsPathSeparator (rev path));
               last_elem = rev (takeWhile (\<lambda>c. \<not> IsPathSeparator c) (rev stripped))
           in if last_elem = [] then ''/'' else last_elem)"

subsection \<open>The path mapper\<close>

definition EtcdNodeFilePrefix :: string where
  "EtcdNodeFilePrefix = ''.''"

definition EtcdNodeLockPrefix :: string where
  "EtcdNodeLockPrefix = ''_''"

record EtcdBackend =
  path :: string

definition nodePath :: "EtcdBackend \<Rightarrow> string \<Rightarrow> string" where
  "nodePath b key = Join [path b, Dir key, EtcdNodeFilePrefix @ Base key]"

definition nodePathDir :: "EtcdBackend \<Rightarrow> string \<Rightarrow> string" where
  "nodePathDir b key = Join [path b, key] @ ''/''"

definition nodePathLock :: "EtcdBackend \<Rightarrow> string \<Rightarrow> string" where
  "nodePathLock b key = Join [path b, Dir key, EtcdNodeLockPrefix @ Base key @ ''/'']"

subsection \<open>Go's \<open>encoding/base64\<close>, \<open>StdEncoding\<close>\<close>

type_synonym byte = "8 word"

definition encodeStd :: string where
  "encodeStd = ''ABCDEFGHIJKLMNOPQRSTUVWXYZabcdefghijklmnopqrstuvwxyz0123456789+/''"

text \<open>\<open>enc.encode[i]\<close>; every index the encoder uses is masked with \<open>0x3F\<close>.\<close>

definition encode :: "64 word \<Rightarrow> char" where
  "encode i = encodeStd ! unat i"

text \<open>
  \<open>enc.decodeMap[c]\<close>: the table is filled with \<open>0xFF\<close> and then holds \<open>i\<close> at the
  \<open>i\<close>-th character of the alphabet; the characters of the alphabet are distinct.
\<close>

definition decodeMap :: "char \<Rightarrow> byte" where
  "decodeMap c =
     (case map_of (zip encodeStd (map of_nat [0..<64])) c of None \<Rightarrow> 0xFF | Some i \<Rightarrow> i)"

text \<open>
  \<open>EncodeToString\<close>: three bytes give four characters; a rest of one or two bytes gives
  two or three characters and padding. \<open>val\<close> is Go's \<open>uint\<close> (64 bits).
\<close>

fun EncodeToString :: "byte list \<Rightarrow> string" where
  "EncodeToString [] = []"
| "EncodeToString [a] =
     (let val = push_bit 16 (ucast a) :: 64 word
      in [encode (drop_bit 18 val AND 0x3F), encode (drop_bit 12 val AND 0x3F),
          CHR ''='', CHR ''=''])"
| "EncodeToString [a, b] =
     (let val = push_bit 16 (ucast a) OR push_bit 8 (ucast b) :: 64 word
      in [encode (drop_bit 18 val AND 0x3F), encode (drop_bit 12 val AND 0x3F),
          encode (drop_bit 6 val AND 0x3F), CHR ''=''])"
| "EncodeToString (a # b # c # src) =
     (let val = push_bit 16 (ucast a) OR push_bit 8 (ucast b) OR ucast c :: 64 word
      in [encode (drop_bit 18 val AND 0x3F), encode (drop_bit 12 val AND 0x3F),
          encode (drop_bit 6 val AND 0x3F), encode (val AND 0x3F)] @ EncodeToString src)"

text \<open>
  Errors are values. \<open>EtcdError\<close> is the client's \<open>*etcd.EtcdError\<close>; the next five are
  the package's own error variables; \<open>CorruptInputError\<close> is base64's (the byte offset it
  carries is left out); \<open>OtherError\<close> is any other error value, such as the client's
  notification that a watch was stopped through its stop channel.
\<close>

datatype error =
    EtcdError (ErrorCode: int) (Message: string) (Cause: string) (Index: "64 word")
  | EtcdSyncClusterError
  | EtcdSemaphoreKeysEmptyError
  | EtcdLockHeldError
  | EtcdLockNotHeldError
  | EtcdSemaphoreKeyRemovedError
  | CorruptInputError
  | OtherError string

text \<open>
  The decoder, one quantum of four characters at a time. The bytes decoded before an
  error are returned with it, as \<open>DecodeString\<close> returns \<open>dbuf[:n], err\<close>.
\<close>

fun decode :: "string \<Rightarrow> byte list \<times> error option" where
  "decode [] = ([], None)"
| "decode (c0 # src0) =
     (if c0 = CHR ''='' \<or> decodeMap c0 = 0xFF then ([], Some CorruptInputError)
      else
       (case src0 of
          [] \<Rightarrow> ([], Some CorruptInputError)
        | c1 # src1 \<Rightarrow>
           (if c1 = CHR ''='' \<or> decodeMap c1 = 0xFF then ([], Some CorruptInputError)
            else
             (let dst0 = push_bit 2 (decodeMap c0) OR drop_bit 4 (decodeMap c1) in
               (case src1 of
                  [] \<Rightarrow> ([], Some CorruptInputError)
                | c2 # src2 \<Rightarrow>
                   (if c2 = CHR ''='' then
                      (case src2 of
                         [] \<Rightarrow> ([], Some CorruptInputError)
                       | c3 # src3 \<Rightarrow>
                          (if c3 \<noteq> CHR ''='' then ([], Some CorruptInputError)
                           else ([dst0], if src3 \<noteq> [] then Some CorruptInputError else None)))
                    else if decodeMap c2 = 0xFF then ([], Some CorruptInputError)
                    else
                     (let dst1 = push_bit 4 (decodeMap c1) OR drop_bit 2 (decodeMap c2) in
                       (case src2 of
                          [] \<Rightarrow> ([], Some CorruptInputError)
                        | c3 # src3 \<Rightarrow>
                           (if c3 = CHR ''='' then
                              ([dst0, dst1],
                               if src3 \<noteq> [] then Some CorruptInputError else None)
                            else if decodeMap c3 = 0xFF then ([], Some CorruptInputError)
                            else
                             (let dst2 = push_bit 6 (decodeMap c2) OR decodeMap c3;
                                  (rest, err) = decode src3
                              in ([dst0, dst1, dst2] @ rest, err)))))))))))"

definition removeNewlines :: "string \<Rightarrow> string" where
  "removeNewlines s = filter (\<lambda>r. r \<noteq> CHR 0x0D \<and> r \<noteq> CHR 0x0A) s"

definition DecodeString :: "string \<Rightarrow> byte list \<times> error option" where
  "DecodeString s = decode (removeNewlines s)"

subsection \<open>The etcd client as environment\<close>

text \<open>
  The client's \<open>Node\<close> and \<open>Response\<close>, with the fields the backend reads. A successful
  call returns a response whose \<open>Node\<close> is present.
\<close>

datatype Node =
  MkNode (Node_Key: string) (Node_Value: string) (Node_Dir: bool) (Node_Nodes: "Node list")

record Response =
  Action :: string
  Node :: Node
  EtcdIndex :: "64 word"

text \<open>
  The calls the backend makes, with their arguments:
  \<open>Set(key, value, ttl)\<close>, \<open>Get(key, sort, recursive)\<close>, \<open>Delete(key, recursive)\<close>,
  \<open>CreateInOrder(dir, value, ttl)\<close> and \<open>Watch(prefix, waitIndex, recursive, nil, stop)\<close>,
  where the last argument of \<open>ClientWatch\<close> says whether a stop channel was passed.
\<close>

datatype call =
    ClientSet string string "64 word"
  | ClientGet string bool bool
  | ClientDelete string bool
  | ClientCreateInOrder string string "64 word"
  | ClientWatch string "64 word" bool bool

text \<open>
  What an operation does to the outside is its history: the calls made, in order, with
  the pauses of \<open>time.Sleep(EtcdWatchRetryInterval)\<close> and the closing of the loss
  channel. The client answers a call as a function of the history so far, which covers
  every store, every competitor and every closing of a stop channel.
\<close>

datatype event = Call call | Sleep | Close

type_synonym history = "event list"

type_synonym Client = "history \<Rightarrow> call \<Rightarrow> error + Response"

definition perform :: "Client \<Rightarrow> call \<Rightarrow> history \<Rightarrow> (error + Response) \<times> history" where
  "perform cl c h = (cl h c, h @ [Call c])"

subsection \<open>Constants and \<open>errorIsMissingKey\<close>\<close>

definition EtcdLockTTL :: "64 word" where
  "EtcdLockTTL = 15"

definition EtcdWatchRetryMax :: int where
  "EtcdWatchRetryMax = 5"

definition errorIsMissingKey :: "error \<Rightarrow> bool" where
  "errorIsMissingKey err = (case err of EtcdError code _ _ _ \<Rightarrow> code = 100 | _ \<Rightarrow> False)"

subsection \<open>The key-value operations\<close>

text \<open>
  Every operation takes the backend's client \<open>cl\<close> and the history, and returns its Go
  result with the new history. A Go result pair \<open>(x, err)\<close> is a pair of options, \<open>None\<close>
  for \<open>nil\<close>. The deferred metrics call has no effect on the result and is left out.
\<close>

record Entry =
  Key :: string
  Value :: "byte list"

definition Put :: "Client \<Rightarrow> EtcdBackend \<Rightarrow> Entry \<Rightarrow> history \<Rightarrow> error option \<times> history" where
  "Put cl c entry h =
     (let val = EncodeToString (Value entry) in
       (case perform cl (ClientSet (nodePath c (Key entry)) val 0) h of
          (Inl err, h') \<Rightarrow> (Some err, h')
        | (Inr _, h') \<Rightarrow> (None, h')))"

definition Get ::
  "Client \<Rightarrow> EtcdBackend \<Rightarrow> string \<Rightarrow> history \<Rightarrow> (Entry option \<times> error option) \<times> history" where
  "Get cl c key h =
     (case perform cl (ClientGet (nodePath c key) False False) h of
        (Inl err, h') \<Rightarrow>
          (if errorIsMissingKey err then ((None, None), h') else ((None, Some err), h'))
      | (Inr response, h') \<Rightarrow>
          (case DecodeString (Node_Value (Node response)) of
             (val, Some err) \<Rightarrow> ((None, Some err), h')
           | (val, None) \<Rightarrow> ((Some \<lparr>Key = key, Value = val\<rparr>, None), h')))"

definition Delete :: "Client \<Rightarrow> EtcdBackend \<Rightarrow> string \<Rightarrow> history \<Rightarrow> error option \<times> history" where
  "Delete cl c key h =
     (case perform cl (ClientDelete (nodePath c key) False) h of
        (Inl err, h') \<Rightarrow> (if \<not> errorIsMissingKey err then (Some err, h') else (None, h'))
      | (Inr _, h') \<Rightarrow> (None, h'))"

text \<open>
  The loop of \<open>List\<close> over the children; \<open>dir_path\<close> is the local \<open>path\<close>.
  \<open>name[1:]\<close> panics when \<open>name\<close> is empty, so
  the loop returns the slice or the panic.
\<close>

datatype panic = SliceBoundsOutOfRange

fun List_loop :: "string \<Rightarrow> Node list \<Rightarrow> panic + string list" where
  "List_loop dir_path [] = Inr []"
| "List_loop dir_path (node # nodes) =
     (let name = TrimPrefix (Node_Key node) dir_path in
       (if Node_Dir node then
          (case List_loop dir_path nodes of
             Inl p \<Rightarrow> Inl p
           | Inr out \<Rightarrow> Inr ((name @ ''/'') # out))
        else if length name < 1 then Inl SliceBoundsOutOfRange
        else
          (case List_loop dir_path nodes of
             Inl p \<Rightarrow> Inl p
           | Inr out \<Rightarrow> Inr (drop 1 name # out))))"

definition List ::
  "Client \<Rightarrow> EtcdBackend \<Rightarrow> string \<Rightarrow> history
    \<Rightarrow> (panic + string list option \<times> error option) \<times> history" where
  "List cl c prefix h =
     (let dir_path = nodePathDir c prefix in
       (case perform cl (ClientGet dir_path True False) h of
          (Inl err, h') \<Rightarrow>
            (if errorIsMissingKey err then (Inr (Some [], None), h')
             else (Inr (None, Some err), h'))
        | (Inr response, h') \<Rightarrow>
            (case List_loop dir_path (Node_Nodes (Node response)) of
               Inl p \<Rightarrow> (Inl p, h')
             | Inr out \<Rightarrow> (Inr (Some out, None), h'))))"

subsection \<open>The lock\<close>

text \<open>
  The handle. Its client is the parameter \<open>cl\<close> of the operations; its mutex serialises
  the calls on one handle, which are sequential here.
\<close>

record EtcdLock =
  value' :: string
  semaphoreDirKey :: string
  semaphoreKey :: string

definition LockWith :: "EtcdBackend \<Rightarrow> string \<Rightarrow> string \<Rightarrow> EtcdLock" where
  "LockWith c key val =
     \<lparr>value' = val, semaphoreDirKey = nodePathLock c key, semaphoreKey = []\<rparr>"

definition addSemaphoreKey ::
  "Client \<Rightarrow> EtcdLock \<Rightarrow> history \<Rightarrow> (error + string \<times> 64 word) \<times> history" where
  "addSemaphoreKey cl c h =
     (case perform cl (ClientCreateInOrder (semaphoreDirKey c) (value' c) EtcdLockTTL) h of
        (Inl err, h') \<Rightarrow> (Inl err, h')
      | (Inr response, h') \<Rightarrow> (Inr (Node_Key (Node response), EtcdIndex response), h'))"

definition getSemaphoreKey ::
  "Client \<Rightarrow> EtcdLock \<Rightarrow> history \<Rightarrow> (error + string \<times> string \<times> 64 word) \<times> history" where
  "getSemaphoreKey cl c h =
     (case perform cl (ClientGet (semaphoreDirKey c) True False) h of
        (Inl err, h') \<Rightarrow> (Inl err, h')
      | (Inr response, h') \<Rightarrow>
          (if length (Node_Nodes (Node response)) = 0 then
             (Inr ([], [], EtcdIndex response), h')
           else (Inr (Node_Key (Node_Nodes (Node response) ! 0),
                      Node_Value (Node_Nodes (Node response) ! 0),
                      EtcdIndex response), h')))"

definition isHeld :: "Client \<Rightarrow> EtcdLock \<Rightarrow> history \<Rightarrow> (error + bool) \<times> history" where
  "isHeld cl c h =
     (if semaphoreKey c = [] then (Inr False, h)
      else
       (case getSemaphoreKey cl c h of
          (Inl err, h') \<Rightarrow> (Inl err, h')
        | (Inr (currentSemaphoreKey, _, _), h') \<Rightarrow>
            (Inr (semaphoreKey c = currentSemaphoreKey), h')))"

definition assertHeld :: "Client \<Rightarrow> EtcdLock \<Rightarrow> history \<Rightarrow> error option \<times> history" where
  "assertHeld cl c h =
     (case isHeld cl c h of
        (Inl err, h') \<Rightarrow> (Some err, h')
      | (Inr held, h') \<Rightarrow> (if \<not> held then (Some EtcdLockNotHeldError, h') else (None, h')))"

definition assertNotHeld :: "Client \<Rightarrow> EtcdLock \<Rightarrow> history \<Rightarrow> error option \<times> history" where
  "assertNotHeld cl c h =
     (case isHeld cl c h of
        (Inl err, h') \<Rightarrow> (Some err, h')
      | (Inr held, h') \<Rightarrow> (if held then (Some EtcdLockHeldError, h') else (None, h')))"

text \<open>
  The loop of \<open>watchForKeyRemoval\<close>. It may run forever (a watch that keeps returning
  other events), so its result is an option: \<open>None\<close> is a run that never leaves the loop.
\<close>

partial_function (option) watchForKeyRemoval_loop ::
  "Client \<Rightarrow> string \<Rightarrow> 64 word \<Rightarrow> int \<Rightarrow> history \<Rightarrow> history option" where
  "watchForKeyRemoval_loop cl key etcdIndex retries h =
     (case perform cl (ClientWatch key etcdIndex False False) h of
        (Inl err, h') \<Rightarrow>
          (if errorIsMissingKey err then Some h'
           else if retries - 1 = 0 then Some h'
           else watchForKeyRemoval_loop cl key etcdIndex (retries - 1) (h' @ [Sleep]))
      | (Inr response, h') \<Rightarrow>
          (if Node_Key (Node response) = key \<and>
              (Action response = ''delete'' \<or> Action response = ''expire'')
           then Some h'
           else watchForKeyRemoval_loop cl key (EtcdIndex response + 1) retries h'))"

declare watchForKeyRemoval_loop.simps [code]

definition watchForKeyRemoval :: "Client \<Rightarrow> string \<Rightarrow> 64 word \<Rightarrow> history \<Rightarrow> history option" where
  "watchForKeyRemoval cl key etcdIndex h =
     (case watchForKeyRemoval_loop cl key etcdIndex EtcdWatchRetryMax h of
        None \<Rightarrow> None
      | Some h' \<Rightarrow> Some (h' @ [Close]))"

text \<open>
  The channel \<open>Lock\<close> returns is closed by the watcher that \<open>Lock\<close> starts for it, so it
  is named by that watcher's arguments: the key watched and the index to watch from.
\<close>

datatype lost_channel = Watcher string "64 word"

text \<open>
  The waiting loop of \<open>Lock\<close>, with the local variables \<open>semaphoreKey\<close>,
  \<open>currentSemaphoreKey\<close> and \<open>currentEtcdIndex\<close>. It returns \<open>Lock\<close>'s result pair and
  the history; \<open>None\<close> is a wait that never ends.
\<close>

partial_function (option) Lock_loop ::
  "Client \<Rightarrow> EtcdLock \<Rightarrow> string \<Rightarrow> string \<Rightarrow> 64 word \<Rightarrow> history
    \<Rightarrow> ((lost_channel option \<times> error option) \<times> history) option" where
  "Lock_loop cl c semKey currentSemaphoreKey currentEtcdIndex h =
     (if semKey \<noteq> currentSemaphoreKey then
        (case perform cl (ClientWatch (semaphoreDirKey c) (currentEtcdIndex + 1) True True) h of
           (Inl err, h') \<Rightarrow>
             (if \<not> is_EtcdError err then
                (case perform cl (ClientDelete (semaphoreKey c) False) h' of
                   (Inl err', h'') \<Rightarrow> Some ((None, Some err'), h'')
                 | (Inr _, h'') \<Rightarrow> Some ((None, None), h''))
              else Some ((None, Some err), h'))
         | (Inr response, h') \<Rightarrow>
             (if Node_Key (Node response) = semKey \<and>
                 (Action response = ''delete'' \<or> Action response = ''expire'')
              then Some ((None, Some EtcdSemaphoreKeyRemovedError), h')
              else
               (case getSemaphoreKey cl c h' of
                  (Inl err, h'') \<Rightarrow> Some ((None, Some err), h'')
                | (Inr (cur, _, idx), h'') \<Rightarrow> Lock_loop cl c semKey cur idx h'')))
      else Some ((Some (Watcher (semaphoreKey c) (currentEtcdIndex + 1)), None), h))"

declare Lock_loop.simps [code]

text \<open>\<open>Lock\<close> returns its result pair, the handle (whose \<open>semaphoreKey\<close> it sets) and the
  history.\<close>

definition Lock ::
  "Client \<Rightarrow> EtcdLock \<Rightarrow> history
    \<Rightarrow> ((lost_channel option \<times> error option) \<times> EtcdLock \<times> history) option" where
  "Lock cl c h =
     (case assertNotHeld cl c h of
        (Some err, h1) \<Rightarrow> Some ((None, Some err), c, h1)
      | (None, h1) \<Rightarrow>
          (case addSemaphoreKey cl c h1 of
             (Inl err, h2) \<Rightarrow> Some ((None, Some err), c, h2)
           | (Inr (semKey, _), h2) \<Rightarrow>
               (let c' = c\<lparr>semaphoreKey := semKey\<rparr> in
                 (case getSemaphoreKey cl c' h2 of
                    (Inl err, h3) \<Rightarrow> Some ((None, Some err), c', h3)
                  | (Inr (currentSemaphoreKey, _, currentEtcdIndex), h3) \<Rightarrow>
                      (case Lock_loop cl c' semKey currentSemaphoreKey currentEtcdIndex h3 of
                         None \<Rightarrow> None
                       | Some (res, h4) \<Rightarrow> Some (res, c', h4))))))"

definition Unlock :: "Client \<Rightarrow> EtcdLock \<Rightarrow> history \<Rightarrow> error option \<times> history" where
  "Unlock cl c h =
     (case assertHeld cl c h of
        (Some err, h') \<Rightarrow> (Some err, h')
      | (None, h') \<Rightarrow>
          (case perform cl (ClientDelete (semaphoreKey c) False) h' of
             (Inl err, h'') \<Rightarrow> (Some err, h'')
           | (Inr _, h'') \<Rightarrow> (None, h'')))"

text \<open>\<open>Value\<close> (the lock's inspector) returns \<open>(held, value, err)\<close>.\<close>

definition Value_of_lock ::
  "Client \<Rightarrow> EtcdLock \<Rightarrow> history \<Rightarrow> (bool \<times> string \<times> error option) \<times> history" where
  "Value_of_lock cl c h =
     (case getSemaphoreKey cl c h of
        (Inl err, h') \<Rightarrow> ((False, [], Some err), h')
      | (Inr (semKey, semaphoreValue, _), h') \<Rightarrow>
          (if semKey = [] then ((False, [], None), h') else ((True, semaphoreValue, None), h')))"

subsection \<open>Notions used to state the properties\<close>

text \<open>The value of the most recent \<open>Set\<close> on a key in a history, if there is one.\<close>

fun last_set :: "history \<Rightarrow> string \<Rightarrow> string option" where
  "last_set [] key = None"
| "last_set (e # h) key =
     (case last_set h key of
        Some v \<Rightarrow> Some v
      | None \<Rightarrow>
          (case e of
             Call (ClientSet k v ttl) \<Rightarrow> (if k = key then Some v else None)
           | _ \<Rightarrow> None))"

text \<open>An event that writes a key: a \<open>Set\<close> or a \<open>Delete\<close> of it.\<close>

fun writes_key :: "string \<Rightarrow> event \<Rightarrow> bool" where
  "writes_key key (Call (ClientSet k v ttl)) = (k = key)"
| "writes_key key (Call (ClientDelete k recursive)) = (k = key)"
| "writes_key key e = False"

text \<open>The store returns what was stored: a read of the key succeeds with the value last set.\<close>

definition returns_stored :: "Client \<Rightarrow> history \<Rightarrow> string \<Rightarrow> bool" where
  "returns_stored cl h key =
     (case cl h (ClientGet key False False) of
        Inl err \<Rightarrow> False
      | Inr response \<Rightarrow> last_set h key = Some (Node_Value (Node response)))"

text \<open>
  An immediate child of the directory \<open>dir_path\<close> (which ends with a slash): its key is the
  directory path followed by a non-empty name without a slash.
\<close>

definition immediate_child :: "string \<Rightarrow> Node \<Rightarrow> bool" where
  "immediate_child dir_path node =
     (HasPrefix (Node_Key node) dir_path \<and>
      drop (length dir_path) (Node_Key node) \<noteq> [] \<and>
      CHR ''/'' \<notin> set (drop (length dir_path) (Node_Key node)))"

text \<open>The lowest-named entry of a listing: the least key, in the order of strings.\<close>

definition lowest_named :: "Node list \<Rightarrow> string option" where
  "lowest_named nodes =
     (if nodes = [] then None else Some (Min (set (map Node_Key nodes))))"

text \<open>The events that create a queue entry, and those that start a watch.\<close>

fun is_create :: "event \<Rightarrow> bool" where
  "is_create (Call (ClientCreateInOrder dir val ttl)) = True"
| "is_create e = False"

fun is_watch :: "event \<Rightarrow> bool" where
  "is_watch (Call (ClientWatch key idx recursive stop)) = True"
| "is_watch e = False"

text \<open>
  A client that answers from a script: the \<open>n\<close>-th call of a history gets the \<open>n\<close>-th
  response, whatever the call. It gives the concrete runs below.
\<close>

definition scripted :: "(error + Response) list \<Rightarrow> Client" where
  "scripted rs h c =
     (let n = length (filter (\<lambda>e. e \<noteq> Sleep \<and> e \<noteq> Close) h)
      in if n < length rs then rs ! n else Inl (OtherError ''no response''))"

text \<open>A client that keeps the values set: a read returns the value last set on the key,
  or the missing-key error.\<close>

definition store_client :: Client where
  "store_client h c =
     (case c of
        ClientSet key val ttl \<Rightarrow> Inr \<lparr>Action = ''set'', Node = MkNode key val False [], EtcdIndex = 0\<rparr>
      | ClientGet key srt recursive \<Rightarrow>
          (case last_set h key of
             None \<Rightarrow> Inl (EtcdError 100 ''Key not found'' key 0)
           | Some val \<Rightarrow> Inr \<lparr>Action = ''get'', Node = MkNode key val False [], EtcdIndex = 0\<rparr>)
      | _ \<Rightarrow> Inl (OtherError ''not supported''))"

section \<open>Properties\<close>

subsection \<open>Base64: decoding an encoding gives the bytes back\<close>

lemma sextet_mask: "(0x3F :: 64 word) = mask 6" by (simp add: mask_eq_exp_minus_1)

lemma length_encodeStd: "length encodeStd = 64" by (simp add: encodeStd_def)
lemma distinct_encodeStd: "distinct encodeStd" by (simp add: encodeStd_def)

lemma decodeMap_nth: "i < 64 \<Longrightarrow> decodeMap (encodeStd ! i) = of_nat i"
proof -
  assume i: "i < 64"
  have "map_of (zip encodeStd (map of_nat [0..<64] :: byte list)) (encodeStd ! i) = Some (map of_nat [0..<64] ! i)"
    using i by (intro map_of_zip_nth) (simp_all add: length_encodeStd distinct_encodeStd)
  moreover have "(map of_nat [0..<64] :: byte list) ! i = of_nat i"
    using i by (simp del: upt_rec_numeral)
  ultimately show ?thesis by (simp add: decodeMap_def del: upt_rec_numeral)
qed

lemma unat_sextet: "unat ((w :: 64 word) AND 0x3F) < 64"
proof -
  have "w AND mask 6 < 2 ^ 6" by (rule and_mask_less') simp
  then show ?thesis unfolding sextet_mask by (simp add: word_less_nat_alt)
qed

lemma decodeMap_encode: "decodeMap (encode (w AND 0x3F)) = ucast (w AND 0x3F)"
  by (simp add: encode_def decodeMap_nth unat_sextet)

lemma encode_in_alphabet: "encode (w AND 0x3F) \<in> set encodeStd"
  by (simp add: encode_def length_encodeStd unat_sextet)

lemma encode_not_pad: "encode (w AND 0x3F) \<noteq> CHR ''=''"
  using encode_in_alphabet [of w] by (auto simp: encodeStd_def)

lemma encode_not_newline: "encode (w AND 0x3F) \<noteq> CHR 0x0D \<and> encode (w AND 0x3F) \<noteq> CHR 0x0A"
  using encode_in_alphabet [of w] by (auto simp: encodeStd_def)

lemma ucast_sextet_valid: "(ucast ((w :: 64 word) AND 0x3F) :: byte) \<noteq> 0xFF"
proof
  assume "(ucast (w AND 0x3F) :: byte) = 0xFF"
  then have "bit (ucast (w AND mask 6) :: byte) 7 = bit (- 1 :: byte) 7"
    by (simp add: sextet_mask)
  then show False by (simp add: bit_simps)
qed

lemma decode_quantum4:
  "decode (encode (w0 AND 0x3F) # encode (w1 AND 0x3F) # encode (w2 AND 0x3F) # encode (w3 AND 0x3F) # src) =
     ([push_bit 2 (ucast (w0 AND 0x3F)) OR drop_bit 4 (ucast (w1 AND 0x3F)),
       push_bit 4 (ucast (w1 AND 0x3F)) OR drop_bit 2 (ucast (w2 AND 0x3F)),
       push_bit 6 (ucast (w2 AND 0x3F)) OR ucast (w3 AND 0x3F)] @ fst (decode src), snd (decode src))"
  by (simp add: decodeMap_encode encode_not_pad ucast_sextet_valid Let_def split_beta)

lemma decode_quantum3:
  "decode [encode (w0 AND 0x3F), encode (w1 AND 0x3F), encode (w2 AND 0x3F), CHR ''=''] =
     ([push_bit 2 (ucast (w0 AND 0x3F)) OR drop_bit 4 (ucast (w1 AND 0x3F)),
       push_bit 4 (ucast (w1 AND 0x3F)) OR drop_bit 2 (ucast (w2 AND 0x3F))], None)"
  by (simp add: decodeMap_encode encode_not_pad ucast_sextet_valid Let_def)

lemma decode_quantum2:
  "decode [encode (w0 AND 0x3F), encode (w1 AND 0x3F), CHR ''='', CHR ''=''] =
     ([push_bit 2 (ucast (w0 AND 0x3F)) OR drop_bit 4 (ucast (w1 AND 0x3F))], None)"
  by (simp add: decodeMap_encode encode_not_pad ucast_sextet_valid Let_def)

lemma Suc2: "2 \<le> n \<Longrightarrow> Suc (Suc (n - 2)) = n" by simp

lemma repack0:
  fixes a b c :: byte
  defines "val \<equiv> push_bit 16 (ucast a) OR push_bit 8 (ucast b) OR ucast c :: 64 word"
  shows "push_bit 2 (ucast (drop_bit 18 val AND 0x3F) :: byte) OR drop_bit 4 (ucast (drop_bit 12 val AND 0x3F)) = a"
  unfolding val_def sextet_mask
  by (rule bit_word_eqI) (auto simp add: bit_simps Suc2 dest: bit_imp_le_length)

lemma repack1:
  fixes a b c :: byte
  defines "val \<equiv> push_bit 16 (ucast a) OR push_bit 8 (ucast b) OR ucast c :: 64 word"
  shows "push_bit 4 (ucast (drop_bit 12 val AND 0x3F) :: byte) OR drop_bit 2 (ucast (drop_bit 6 val AND 0x3F)) = b"
  unfolding val_def sextet_mask
  by (rule bit_word_eqI) (auto simp add: bit_simps Suc2 dest: bit_imp_le_length)

lemma repack2:
  fixes a b c :: byte
  defines "val \<equiv> push_bit 16 (ucast a) OR push_bit 8 (ucast b) OR ucast c :: 64 word"
  shows "push_bit 6 (ucast (drop_bit 6 val AND 0x3F) :: byte) OR ucast (val AND 0x3F) = c"
  unfolding val_def sextet_mask
  by (rule bit_word_eqI) (auto simp add: bit_simps Suc2 dest: bit_imp_le_length)

lemma decode_EncodeToString: "decode (EncodeToString src) = (src, None)"
proof (induction src rule: EncodeToString.induct)
  case 1
  show ?case by simp
next
  case (2 a)
  have "push_bit 16 (ucast a) = (push_bit 16 (ucast a) OR push_bit 8 (ucast (0::byte)) OR ucast (0::byte) :: 64 word)"
    by simp
  then show ?case
    using repack0 [of a 0 0]
    by (simp only: EncodeToString.simps Let_def decode_quantum2)
next
  case (3 a b)
  have "push_bit 16 (ucast a) OR push_bit 8 (ucast b) = (push_bit 16 (ucast a) OR push_bit 8 (ucast b) OR ucast (0::byte) :: 64 word)"
    by simp
  then show ?case
    using repack0 [of a b 0] repack1 [of a b 0]
    by (simp only: EncodeToString.simps Let_def decode_quantum3)
next
  case (4 a b c src)
  then show ?case
    by (simp only: EncodeToString.simps Let_def append_Cons append_Nil decode_quantum4
        repack0 repack1 repack2 fst_conv snd_conv)
qed

lemma removeNewlines_EncodeToString: "removeNewlines (EncodeToString src) = EncodeToString src"
  by (induction src rule: EncodeToString.induct)
     (simp_all add: removeNewlines_def Let_def encode_not_newline)

lemma DecodeString_EncodeToString: "DecodeString (EncodeToString src) = (src, None)"
  by (simp add: DecodeString_def removeNewlines_EncodeToString decode_EncodeToString)



subsection \<open>\<open>Put\<close> and \<open>Get\<close>\<close>

lemma snd_perform: "snd (perform cl call h) = h @ [Call call]"
  by (simp add: perform_def)

lemma fst_perform: "fst (perform cl call h) = cl h call"
  by (simp add: perform_def)

lemma snd_Put: "snd (Put cl c entry h) = h @ [Call (ClientSet (nodePath c (Key entry)) (EncodeToString (Value entry)) 0)]"
  by (simp add: Put_def perform_def Let_def split: sum.splits)

lemma last_set_append_Set: "last_set (h @ [Call (ClientSet key v ttl)]) key = Some v"
  by (induction h) (simp_all split: option.splits)

lemma last_set_append_no_write:
  "\<forall>e \<in> set h2. \<not> writes_key key e \<Longrightarrow> last_set (h1 @ h2) key = last_set h1 key"
proof (induction h2 arbitrary: h1)
  case Nil
  then show ?case by simp
next
  case (Cons e h2)
  have "last_set (h1 @ [e]) key = last_set h1 key"
    using Cons.prems
    by (induction h1) (auto split: option.splits event.splits call.splits)
  moreover have "last_set ((h1 @ [e]) @ h2) key = last_set (h1 @ [e]) key"
    using Cons.prems by (intro Cons.IH) simp
  ultimately show ?case by simp
qed

text \<open>
  Claim C5. For every key \<open>K\<close> and every byte sequence \<open>V\<close>: after \<open>Put\<close> of \<open>V\<close> at \<open>K\<close>,
  with no write to the node of \<open>K\<close> in between (\<open>h2\<close>) and a store that returns what was
  stored, \<open>Get\<close> of \<open>K\<close> returns the entry with key \<open>K\<close> and value \<open>V\<close>, and no error.
\<close>

theorem Put_Get_roundtrip:
  assumes "\<forall>e \<in> set h2. \<not> writes_key (nodePath c K) e"
    and "returns_stored cl (snd (Put cl c \<lparr>Key = K, Value = V\<rparr> h) @ h2) (nodePath c K)"
  shows "fst (Get cl c K (snd (Put cl c \<lparr>Key = K, Value = V\<rparr> h) @ h2)) =
           (Some \<lparr>Key = K, Value = V\<rparr>, None)"
proof -
  let ?h1 = "snd (Put cl c \<lparr>Key = K, Value = V\<rparr> h)"
  have "last_set (?h1 @ h2) (nodePath c K) = last_set ?h1 (nodePath c K)"
    using assms(1) by (rule last_set_append_no_write)
  also have "\<dots> = Some (EncodeToString V)"
    by (simp add: snd_Put last_set_append_Set)
  finally have "last_set (?h1 @ h2) (nodePath c K) = Some (EncodeToString V)" .
  with assms(2) obtain response where
    "cl (?h1 @ h2) (ClientGet (nodePath c K) False False) = Inr response"
    "Node_Value (Node response) = EncodeToString V"
    by (auto simp: returns_stored_def split: sum.splits)
  then show ?thesis
    by (simp add: Get_def perform_def DecodeString_EncodeToString)
qed

text \<open>A run on the store that keeps the values set, with a zero byte and \<open>0xFF\<close> in the
  value and a read of another key in between.\<close>

theorem Put_Get_roundtrip_witness:
  "\<not> writes_key (nodePath \<lparr>path = ''/t''\<rparr> ''a/b'') (Call (ClientGet ''/t/x'' False False)) \<and>
   returns_stored store_client
     (snd (Put store_client \<lparr>path = ''/t''\<rparr> \<lparr>Key = ''a/b'', Value = [0, 255, 1, 2]\<rparr> []) @
      [Call (ClientGet ''/t/x'' False False)]) (nodePath \<lparr>path = ''/t''\<rparr> ''a/b'') \<and>
   fst (Get store_client \<lparr>path = ''/t''\<rparr> ''a/b''
     (snd (Put store_client \<lparr>path = ''/t''\<rparr> \<lparr>Key = ''a/b'', Value = [0, 255, 1, 2]\<rparr> []) @
      [Call (ClientGet ''/t/x'' False False)])) =
     (Some \<lparr>Key = ''a/b'', Value = [0, 255, 1, 2]\<rparr>, None)"
proof -
  have h1: "\<forall>e \<in> set [Call (ClientGet ''/t/x'' False False)].
              \<not> writes_key (nodePath \<lparr>path = ''/t''\<rparr> ''a/b'') e"
    by simp
  have h2: "returns_stored store_client
     (snd (Put store_client \<lparr>path = ''/t''\<rparr> \<lparr>Key = ''a/b'', Value = [0, 255, 1, 2]\<rparr> []) @
      [Call (ClientGet ''/t/x'' False False)]) (nodePath \<lparr>path = ''/t''\<rparr> ''a/b'')"
    by code_simp
  show ?thesis
    using h1 h2 Put_Get_roundtrip [OF h1 h2] by simp
qed

lemma errorIsMissingKey_iff: "errorIsMissingKey err \<longleftrightarrow> is_EtcdError err \<and> ErrorCode err = 100"
  by (cases err) (simp_all add: errorIsMissingKey_def)

lemma Get_store_error:
  "cl h (ClientGet (nodePath c key) False False) = Inl err \<Longrightarrow>
   fst (Get cl c key h) = (None, if errorIsMissingKey err then None else Some err)"
  by (simp add: Get_def perform_def)

lemma Get_store_response:
  "cl h (ClientGet (nodePath c key) False False) = Inr response \<Longrightarrow>
   fst (Get cl c key h) =
     (case DecodeString (Node_Value (Node response)) of
        (val, Some err) \<Rightarrow> (None, Some err)
      | (val, None) \<Rightarrow> (Some \<lparr>Key = key, Value = val\<rparr>, None))"
  by (simp add: Get_def perform_def split: prod.splits option.splits)

text \<open>
  Claim C6. \<open>Get\<close> returns \<open>(nil, nil)\<close> exactly when the read fails with an etcd error
  of code 100; a read that fails with any other error returns that error unchanged and
  no entry; a read whose value does not decode returns the decoder's error and no
  entry.
\<close>

theorem Get_results:
  "(fst (Get cl c key h) = (None, None) \<longleftrightarrow>
      (\<exists>err. cl h (ClientGet (nodePath c key) False False) = Inl err \<and>
             is_EtcdError err \<and> ErrorCode err = 100)) \<and>
   (\<forall>err. cl h (ClientGet (nodePath c key) False False) = Inl err \<and>
          \<not> (is_EtcdError err \<and> ErrorCode err = 100) \<longrightarrow>
          fst (Get cl c key h) = (None, Some err)) \<and>
   (\<forall>response val err.
          cl h (ClientGet (nodePath c key) False False) = Inr response \<and>
          DecodeString (Node_Value (Node response)) = (val, Some err) \<longrightarrow>
          fst (Get cl c key h) = (None, Some err))"
proof (intro conjI allI impI)
  show "fst (Get cl c key h) = (None, None) \<longleftrightarrow>
      (\<exists>err. cl h (ClientGet (nodePath c key) False False) = Inl err \<and>
             is_EtcdError err \<and> ErrorCode err = 100)"
  proof (cases "cl h (ClientGet (nodePath c key) False False)")
    case (Inl err)
    then show ?thesis
      by (simp add: Get_store_error errorIsMissingKey_iff)
  next
    case (Inr response)
    then show ?thesis
      by (simp add: Get_store_response split: prod.splits option.splits)
  qed
next
  fix err
  assume "cl h (ClientGet (nodePath c key) False False) = Inl err \<and>
          \<not> (is_EtcdError err \<and> ErrorCode err = 100)"
  then show "fst (Get cl c key h) = (None, Some err)"
    by (simp add: Get_store_error errorIsMissingKey_iff)
next
  fix response val err
  assume "cl h (ClientGet (nodePath c key) False False) = Inr response \<and>
          DecodeString (Node_Value (Node response)) = (val, Some err)"
  then show "fst (Get cl c key h) = (None, Some err)"
    by (simp add: Get_store_response)
qed

text \<open>Three reads: a missing key, a transport error, and a stored value that is not
  base64 (three characters, no padding).\<close>

theorem Get_results_witness:
  "fst (Get (scripted [Inl (EtcdError 100 ''Key not found'' ''/t/.nope'' 7)])
          \<lparr>path = ''/t''\<rparr> ''nope'' []) = (None, None) \<and>
   fst (Get (scripted [Inl (OtherError ''connection refused'')])
          \<lparr>path = ''/t''\<rparr> ''nope'' []) = (None, Some (OtherError ''connection refused'')) \<and>
   fst (Get (scripted [Inr \<lparr>Action = ''get'', Node = MkNode ''/t/.k'' ''AQI'' False [],
                            EtcdIndex = 7\<rparr>])
          \<lparr>path = ''/t''\<rparr> ''k'' []) = (None, Some CorruptInputError)"
proof -
  let ?c = "\<lparr>path = ''/t''\<rparr>"
  let ?missing = "EtcdError 100 ''Key not found'' ''/t/.nope'' 7"
  let ?r = "\<lparr>Action = ''get'', Node = MkNode ''/t/.k'' ''AQI'' False [], EtcdIndex = 7\<rparr>"
  have a: "scripted [Inl ?missing] [] (ClientGet (nodePath ?c ''nope'') False False) = Inl ?missing \<and>
           is_EtcdError ?missing \<and> ErrorCode ?missing = 100"
    by (simp add: scripted_def)
  have b: "scripted [Inl (OtherError ''connection refused'')] []
             (ClientGet (nodePath ?c ''nope'') False False) = Inl (OtherError ''connection refused'') \<and>
           \<not> (is_EtcdError (OtherError ''connection refused'') \<and>
                ErrorCode (OtherError ''connection refused'') = 100)"
    by (simp add: scripted_def)
  have d: "DecodeString (Node_Value (Node ?r)) = ([], Some CorruptInputError)"
    by code_simp
  have e: "scripted [Inr ?r] [] (ClientGet (nodePath ?c ''k'') False False) = Inr ?r"
    by (simp add: scripted_def)
  from a Get_results [of "scripted [Inl ?missing]" ?c "''nope''" "[]"]
  have 1: "fst (Get (scripted [Inl ?missing]) ?c ''nope'' []) = (None, None)"
    by blast
  from b Get_results [of "scripted [Inl (OtherError ''connection refused'')]" ?c "''nope''" "[]"]
  have 2: "fst (Get (scripted [Inl (OtherError ''connection refused'')]) ?c ''nope'' []) =
             (None, Some (OtherError ''connection refused''))"
    by blast
  from d e Get_results [of "scripted [Inr ?r]" ?c "''k''" "[]"]
  have 3: "fst (Get (scripted [Inr ?r]) ?c ''k'' []) = (None, Some CorruptInputError)"
    by blast
  from 1 2 3 show ?thesis by blast
qed

subsection \<open>\<open>List\<close>\<close>

lemma nodePathDir_last: "nodePathDir c prefix \<noteq> [] \<and> last (nodePathDir c prefix) = CHR ''/''"
  by (simp add: nodePathDir_def)

lemma child_key:
  "immediate_child dir_path node \<Longrightarrow>
   Node_Key node = dir_path @ drop (length dir_path) (Node_Key node)"
  by (metis HasPrefix_def append_take_drop_id immediate_child_def)

lemma TrimPrefix_child:
  "immediate_child dir_path node \<Longrightarrow>
   TrimPrefix (Node_Key node) dir_path = drop (length dir_path) (Node_Key node)"
  by (simp add: immediate_child_def TrimPrefix_def)

lemma List_loop_children:
  "\<forall>node \<in> set nodes. immediate_child dir_path node \<Longrightarrow>
   List_loop dir_path nodes =
     Inr (map (\<lambda>node. if Node_Dir node then drop (length dir_path) (Node_Key node) @ ''/''
                       else drop 1 (drop (length dir_path) (Node_Key node))) nodes)"
proof (induction nodes)
  case Nil
  then show ?case by simp
next
  case (Cons node nodes)
  then have "immediate_child dir_path node" by simp
  then have "TrimPrefix (Node_Key node) dir_path = drop (length dir_path) (Node_Key node)"
    and "drop (length dir_path) (Node_Key node) \<noteq> []"
    by (simp_all add: TrimPrefix_child immediate_child_def)
  with Cons show ?case by (simp add: Let_def)
qed

lemma Base_append_name:
  assumes "name \<noteq> []" and "CHR ''/'' \<notin> set name" and "dir_path \<noteq> []"
    and "last dir_path = CHR ''/''"
  shows "Base (dir_path @ name) = name"
proof -
  have notsep: "\<forall>x \<in> set (rev name). \<not> IsPathSeparator x"
    using assms(2) by (auto simp: IsPathSeparator_def)
  have "rev name \<noteq> []" using assms(1) by simp
  then obtain x xs where rn: "rev name = x # xs" by (cases "rev name") auto
  with notsep have "\<not> IsPathSeparator x" by simp
  then have strip: "dropWhile IsPathSeparator (rev (dir_path @ name)) = rev (dir_path @ name)"
    using rn by simp
  obtain ys where rd: "rev dir_path = CHR ''/'' # ys"
    using assms(3,4) by (cases dir_path rule: rev_cases) auto
  have "takeWhile (\<lambda>c. \<not> IsPathSeparator c) (rev name @ rev dir_path) =
          rev name @ takeWhile (\<lambda>c. \<not> IsPathSeparator c) (rev dir_path)"
    using notsep by (intro takeWhile_append2) simp
  also have "\<dots> = rev name" using rd by (simp add: IsPathSeparator_def)
  finally have "takeWhile (\<lambda>c. \<not> IsPathSeparator c) (rev (dir_path @ name)) = rev name"
    by simp
  with strip assms(1) show ?thesis
    by (simp add: Base_def Let_def)
qed

lemma Base_child:
  assumes "immediate_child (nodePathDir c prefix) node"
  shows "Base (Node_Key node) = drop (length (nodePathDir c prefix)) (Node_Key node)"
proof -
  let ?name = "drop (length (nodePathDir c prefix)) (Node_Key node)"
  have "Base (nodePathDir c prefix @ ?name) = ?name"
    using assms nodePathDir_last [of c prefix]
    by (intro Base_append_name) (simp_all add: immediate_child_def)
  then show ?thesis using child_key [OF assms] by simp
qed

lemma List_missing:
  "cl h (ClientGet (nodePathDir c prefix) True False) = Inl err \<Longrightarrow> errorIsMissingKey err \<Longrightarrow>
   fst (List cl c prefix h) = Inr (Some [], None)"
  by (simp add: List_def perform_def Let_def)

lemma List_children:
  assumes "cl h (ClientGet (nodePathDir c prefix) True False) = Inr response"
    and "\<forall>node \<in> set (Node_Nodes (Node response)). immediate_child (nodePathDir c prefix) node"
  shows "fst (List cl c prefix h) =
     Inr (Some (map (\<lambda>node. if Node_Dir node then Base (Node_Key node) @ ''/''
                             else drop 1 (drop (length (nodePathDir c prefix)) (Node_Key node)))
                  (Node_Nodes (Node response))), None)"
proof -
  have "map (\<lambda>node. if Node_Dir node then drop (length (nodePathDir c prefix)) (Node_Key node) @ ''/''
                     else drop 1 (drop (length (nodePathDir c prefix)) (Node_Key node)))
          (Node_Nodes (Node response)) =
        map (\<lambda>node. if Node_Dir node then Base (Node_Key node) @ ''/''
                     else drop 1 (drop (length (nodePathDir c prefix)) (Node_Key node)))
          (Node_Nodes (Node response))"
    using assms(2) by (intro map_cong refl) (auto simp: Base_child)
  then show ?thesis
    using assms by (simp add: List_def perform_def Let_def List_loop_children)
qed

text \<open>
  Claim C7. When the directory is missing, \<open>List\<close> returns the empty list and no error.
  When the read succeeds and returns immediate children of the directory, \<open>List\<close>
  returns, child by child and in order, the base name followed by a slash for a
  directory, and for a file the key without the directory path and without one more
  character.
\<close>

theorem List_results:
  "(\<forall>err. cl h (ClientGet (nodePathDir c prefix) True False) = Inl err \<and> errorIsMissingKey err \<longrightarrow>
          fst (List cl c prefix h) = Inr (Some [], None)) \<and>
   (\<forall>response.
          cl h (ClientGet (nodePathDir c prefix) True False) = Inr response \<and>
          (\<forall>node \<in> set (Node_Nodes (Node response)). immediate_child (nodePathDir c prefix) node) \<longrightarrow>
          fst (List cl c prefix h) =
            Inr (Some (map (\<lambda>node. if Node_Dir node then Base (Node_Key node) @ ''/''
                                    else drop 1 (drop (length (nodePathDir c prefix)) (Node_Key node)))
                         (Node_Nodes (Node response))), None))"
  using List_missing [of cl h c prefix] List_children [of cl h c prefix]
  by blast

text \<open>A missing directory, and a directory \<open>/t/a/\<close> with the file \<open>.y\<close> and the
  directory \<open>sub\<close>.\<close>

theorem List_results_witness:
  "fst (List (scripted [Inl (EtcdError 100 ''Key not found'' ''/t/a'' 7)])
          \<lparr>path = ''/t''\<rparr> ''a/'' []) = Inr (Some [], None) \<and>
   fst (List (scripted [Inr \<lparr>Action = ''get'',
                  Node = MkNode ''/t/a'' [] True
                    [MkNode ''/t/a/.y'' ''AA=='' False [], MkNode ''/t/a/sub'' [] True []],
                  EtcdIndex = 7\<rparr>])
          \<lparr>path = ''/t''\<rparr> ''a/'' []) = Inr (Some [''y'', ''sub/''], None)"
proof -
  let ?c = "\<lparr>path = ''/t''\<rparr>"
  let ?missing = "EtcdError 100 ''Key not found'' ''/t/a'' 7"
  let ?nodes = "[MkNode ''/t/a/.y'' ''AA=='' False [], MkNode ''/t/a/sub'' [] True []]"
  let ?r = "\<lparr>Action = ''get'', Node = MkNode ''/t/a'' [] True ?nodes, EtcdIndex = 7\<rparr>"
  have dir: "nodePathDir ?c ''a/'' = ''/t/a/''"
    by code_simp
  have a: "scripted [Inl ?missing] [] (ClientGet (nodePathDir ?c ''a/'') True False) = Inl ?missing \<and>
           errorIsMissingKey ?missing"
    by (simp add: scripted_def errorIsMissingKey_def)
  have b: "scripted [Inr ?r] [] (ClientGet (nodePathDir ?c ''a/'') True False) = Inr ?r"
    by (simp add: scripted_def)
  have children: "\<forall>node \<in> set (Node_Nodes (Node ?r)). immediate_child (nodePathDir ?c ''a/'') node"
    by (simp add: dir immediate_child_def HasPrefix_def)
  have names: "map (\<lambda>node. if Node_Dir node then Base (Node_Key node) @ ''/''
                            else drop 1 (drop (length (nodePathDir ?c ''a/'')) (Node_Key node)))
                 (Node_Nodes (Node ?r)) = [''y'', ''sub/'']"
    by (simp add: dir Base_def IsPathSeparator_def)
  from a List_results [of "scripted [Inl ?missing]" "[]" ?c "''a/''"]
  have 1: "fst (List (scripted [Inl ?missing]) ?c ''a/'' []) = Inr (Some [], None)"
    by blast
  from b children List_results [of "scripted [Inr ?r]" "[]" ?c "''a/''"]
  have "fst (List (scripted [Inr ?r]) ?c ''a/'' []) =
          Inr (Some (map (\<lambda>node. if Node_Dir node then Base (Node_Key node) @ ''/''
                                  else drop 1 (drop (length (nodePathDir ?c ''a/'')) (Node_Key node)))
                       (Node_Nodes (Node ?r))), None)"
    by blast
  with names have 2: "fst (List (scripted [Inr ?r]) ?c ''a/'' []) = Inr (Some [''y'', ''sub/''], None)"
    by simp
  from 1 2 show ?thesis by blast
qed

text \<open>
  Claim C10. For a child that is not a directory, \<open>List\<close> removes the first character of
  the child's base name whatever that character is: the base name is some character \<open>x\<close>
  followed by the listed name, and nothing is required of \<open>x\<close>.
\<close>

theorem List_strips_first_character:
  assumes "cl h (ClientGet (nodePathDir c prefix) True False) = Inr response"
    and "\<forall>node \<in> set (Node_Nodes (Node response)). immediate_child (nodePathDir c prefix) node"
    and "i < length (Node_Nodes (Node response))"
    and "\<not> Node_Dir (Node_Nodes (Node response) ! i)"
  shows "\<exists>out x. fst (List cl c prefix h) = Inr (Some out, None) \<and>
           length out = length (Node_Nodes (Node response)) \<and>
           Base (Node_Key (Node_Nodes (Node response) ! i)) = x # (out ! i)"
proof -
  let ?nodes = "Node_Nodes (Node response)"
  let ?name = "\<lambda>node. if Node_Dir node then Base (Node_Key node) @ ''/''
                       else drop 1 (drop (length (nodePathDir c prefix)) (Node_Key node))"
  have child: "immediate_child (nodePathDir c prefix) (?nodes ! i)"
    using assms(2,3) by simp
  then have base: "Base (Node_Key (?nodes ! i)) = drop (length (nodePathDir c prefix)) (Node_Key (?nodes ! i))"
    by (rule Base_child)
  moreover have "drop (length (nodePathDir c prefix)) (Node_Key (?nodes ! i)) \<noteq> []"
    using child by (simp add: immediate_child_def)
  ultimately have "Base (Node_Key (?nodes ! i)) \<noteq> []"
    by simp
  then obtain x rest where xs: "Base (Node_Key (?nodes ! i)) = x # rest"
    by (auto simp: neq_Nil_conv)
  have "map ?name ?nodes ! i = drop 1 (Base (Node_Key (?nodes ! i)))"
    using assms(3,4) base by simp
  with xs have "Base (Node_Key (?nodes ! i)) = x # (map ?name ?nodes ! i)"
    by simp
  moreover have "fst (List cl c prefix h) = Inr (Some (map ?name ?nodes), None)"
    using assms(1,2) by (rule List_children)
  ultimately show ?thesis by (intro exI [of _ "map ?name ?nodes"] exI [of _ x]) simp
qed

text \<open>A key \<open>/t/a/foo\<close>, written to the store by another program, is listed as \<open>oo\<close>.\<close>

theorem List_strips_first_character_witness:
  "fst (List (scripted [Inr \<lparr>Action = ''get'',
                  Node = MkNode ''/t/a'' [] True [MkNode ''/t/a/foo'' ''bar'' False []],
                  EtcdIndex = 7\<rparr>])
          \<lparr>path = ''/t''\<rparr> ''a'' []) = Inr (Some [''oo''], None) \<and>
   Base ''/t/a/foo'' = CHR ''f'' # ''oo''"
proof -
  let ?c = "\<lparr>path = ''/t''\<rparr>"
  let ?nodes = "[MkNode ''/t/a/foo'' ''bar'' False []]"
  let ?r = "\<lparr>Action = ''get'', Node = MkNode ''/t/a'' [] True ?nodes, EtcdIndex = 7\<rparr>"
  have dir: "nodePathDir ?c ''a'' = ''/t/a/''"
    by code_simp
  have b: "scripted [Inr ?r] [] (ClientGet (nodePathDir ?c ''a'') True False) = Inr ?r"
    by (simp add: scripted_def)
  have children: "\<forall>node \<in> set (Node_Nodes (Node ?r)). immediate_child (nodePathDir ?c ''a'') node"
    by (simp add: dir immediate_child_def HasPrefix_def)
  have base: "Base ''/t/a/foo'' = ''foo''"
    by (simp add: Base_def IsPathSeparator_def)
  have i: "0 < length (Node_Nodes (Node ?r)) \<and> \<not> Node_Dir (Node_Nodes (Node ?r) ! 0)"
    by simp
  from b children i
    List_strips_first_character [of "scripted [Inr ?r]" "[]" ?c "''a''" ?r 0]
  obtain out x where "fst (List (scripted [Inr ?r]) ?c ''a'' []) = Inr (Some out, None)"
    and "length out = 1" and "Base ''/t/a/foo'' = x # (out ! 0)"
    by auto
  with base have "out = [''oo'']"
    by (cases out) auto
  with \<open>fst (List (scripted [Inr ?r]) ?c ''a'' []) = Inr (Some out, None)\<close> base
  show ?thesis by simp
qed

subsection \<open>The lock: \<open>isHeld\<close>\<close>

lemma lowest_named_sorted:
  "sorted (map Node_Key nodes) \<Longrightarrow>
   lowest_named nodes = (case nodes of [] \<Rightarrow> None | n # ns \<Rightarrow> Some (Node_Key n))"
proof (cases nodes)
  case Nil
  then show ?thesis by (simp add: lowest_named_def)
next
  case (Cons n ns)
  assume "sorted (map Node_Key nodes)"
  with Cons have "\<forall>k \<in> set (map Node_Key ns). Node_Key n \<le> k"
    by simp
  then have "Min (set (map Node_Key (n # ns))) = Node_Key n"
    by (intro Min_eqI) auto
  with Cons show ?thesis by (simp add: lowest_named_def)
qed

lemma getSemaphoreKey_error:
  "cl h (ClientGet (semaphoreDirKey c) True False) = Inl err \<Longrightarrow>
   getSemaphoreKey cl c h = (Inl err, h @ [Call (ClientGet (semaphoreDirKey c) True False)])"
  by (simp add: getSemaphoreKey_def perform_def)

lemma getSemaphoreKey_response:
  "cl h (ClientGet (semaphoreDirKey c) True False) = Inr response \<Longrightarrow>
   getSemaphoreKey cl c h =
     (Inr (case Node_Nodes (Node response) of
             [] \<Rightarrow> ([], [], EtcdIndex response)
           | n # ns \<Rightarrow> (Node_Key n, Node_Value n, EtcdIndex response)),
      h @ [Call (ClientGet (semaphoreDirKey c) True False)])"
  by (simp add: getSemaphoreKey_def perform_def split: list.splits)

lemma isHeld_empty: "semaphoreKey c = [] \<Longrightarrow> isHeld cl c h = (Inr False, h)"
  by (simp add: isHeld_def)

lemma isHeld_error:
  "semaphoreKey c \<noteq> [] \<Longrightarrow> cl h (ClientGet (semaphoreDirKey c) True False) = Inl err \<Longrightarrow>
   isHeld cl c h = (Inl err, h @ [Call (ClientGet (semaphoreDirKey c) True False)])"
  by (simp add: isHeld_def getSemaphoreKey_error)

lemma isHeld_response:
  "semaphoreKey c \<noteq> [] \<Longrightarrow> cl h (ClientGet (semaphoreDirKey c) True False) = Inr response \<Longrightarrow>
   isHeld cl c h =
     (Inr (Node_Nodes (Node response) \<noteq> [] \<and>
           Node_Key (hd (Node_Nodes (Node response))) = semaphoreKey c),
      h @ [Call (ClientGet (semaphoreDirKey c) True False)])"
  by (auto simp: isHeld_def getSemaphoreKey_response split: list.splits)

lemma isHeld_True_iff:
  "fst (isHeld cl c h) = Inr True \<longleftrightarrow>
     semaphoreKey c \<noteq> [] \<and>
     (\<exists>response. cl h (ClientGet (semaphoreDirKey c) True False) = Inr response \<and>
        Node_Nodes (Node response) \<noteq> [] \<and>
        Node_Key (hd (Node_Nodes (Node response))) = semaphoreKey c)"
proof (cases "semaphoreKey c = []")
  case True
  then show ?thesis by (simp add: isHeld_empty)
next
  case False
  then show ?thesis
    by (cases "cl h (ClientGet (semaphoreDirKey c) True False)")
       (simp_all add: isHeld_error isHeld_response)
qed

lemma isHeld_True_history:
  "fst (isHeld cl c h) = Inr True \<Longrightarrow>
   isHeld cl c h = (Inr True, h @ [Call (ClientGet (semaphoreDirKey c) True False)])"
  by (auto simp: isHeld_True_iff isHeld_response)

text \<open>
  Claim C8. \<open>isHeld\<close> returns true if and only if the recorded queue-entry path is not
  empty and is the key of the head, the first entry of the sorted listing of the queue
  directory. With an empty recorded path it returns false, without an error and without
  a call; a failed read returns its error. Where the listing is sorted by key, as the
  call asks, the head is the lowest-named entry.
\<close>

theorem isHeld_iff:
  "(fst (isHeld cl c h) = Inr True \<longleftrightarrow>
      semaphoreKey c \<noteq> [] \<and>
      (\<exists>response. cl h (ClientGet (semaphoreDirKey c) True False) = Inr response \<and>
         Node_Nodes (Node response) \<noteq> [] \<and>
         Node_Key (hd (Node_Nodes (Node response))) = semaphoreKey c)) \<and>
   (semaphoreKey c = [] \<longrightarrow> isHeld cl c h = (Inr False, h)) \<and>
   (\<forall>err. semaphoreKey c \<noteq> [] \<and> cl h (ClientGet (semaphoreDirKey c) True False) = Inl err \<longrightarrow>
          fst (isHeld cl c h) = Inl err) \<and>
   (\<forall>response. cl h (ClientGet (semaphoreDirKey c) True False) = Inr response \<and>
          sorted (map Node_Key (Node_Nodes (Node response))) \<longrightarrow>
          fst (isHeld cl c h) =
            Inr (semaphoreKey c \<noteq> [] \<and>
                 lowest_named (Node_Nodes (Node response)) = Some (semaphoreKey c)))"
proof (intro conjI allI impI)
  show "fst (isHeld cl c h) = Inr True \<longleftrightarrow>
      semaphoreKey c \<noteq> [] \<and>
      (\<exists>response. cl h (ClientGet (semaphoreDirKey c) True False) = Inr response \<and>
         Node_Nodes (Node response) \<noteq> [] \<and>
         Node_Key (hd (Node_Nodes (Node response))) = semaphoreKey c)"
    by (rule isHeld_True_iff)
next
  assume "semaphoreKey c = []"
  then show "isHeld cl c h = (Inr False, h)" by (rule isHeld_empty)
next
  fix err
  assume "semaphoreKey c \<noteq> [] \<and> cl h (ClientGet (semaphoreDirKey c) True False) = Inl err"
  then show "fst (isHeld cl c h) = Inl err" by (simp add: isHeld_error)
next
  fix response
  assume a: "cl h (ClientGet (semaphoreDirKey c) True False) = Inr response \<and>
          sorted (map Node_Key (Node_Nodes (Node response)))"
  show "fst (isHeld cl c h) =
          Inr (semaphoreKey c \<noteq> [] \<and> lowest_named (Node_Nodes (Node response)) = Some (semaphoreKey c))"
  proof (cases "semaphoreKey c = []")
    case True
    then show ?thesis by (simp add: isHeld_empty)
  next
    case False
    with a show ?thesis
      by (auto simp: isHeld_response lowest_named_sorted split: list.splits)
  qed
qed

text \<open>A queue with two entries, listed in order: the handle of the first holds the lock,
  the handle of the second does not, a fresh handle makes no call, and a failed read
  returns its error.\<close>

theorem isHeld_iff_witness:
  "isHeld (scripted [Inr \<lparr>Action = ''get'',
             Node = MkNode ''/vault/_foo'' [] True
               [MkNode ''/vault/_foo/1'' ''you'' False [], MkNode ''/vault/_foo/2'' ''me'' False []],
             EtcdIndex = 7\<rparr>])
      \<lparr>value' = ''you'', semaphoreDirKey = ''/vault/_foo'', semaphoreKey = ''/vault/_foo/1''\<rparr> [] =
     (Inr True, [Call (ClientGet ''/vault/_foo'' True False)]) \<and>
   fst (isHeld (scripted [Inr \<lparr>Action = ''get'',
             Node = MkNode ''/vault/_foo'' [] True
               [MkNode ''/vault/_foo/1'' ''you'' False [], MkNode ''/vault/_foo/2'' ''me'' False []],
             EtcdIndex = 7\<rparr>])
      \<lparr>value' = ''me'', semaphoreDirKey = ''/vault/_foo'', semaphoreKey = ''/vault/_foo/2''\<rparr> []) =
     Inr False \<and>
   isHeld (scripted []) \<lparr>value' = ''me'', semaphoreDirKey = ''/vault/_foo'', semaphoreKey = []\<rparr> [] =
     (Inr False, []) \<and>
   fst (isHeld (scripted [Inl (OtherError ''connection refused'')])
      \<lparr>value' = ''me'', semaphoreDirKey = ''/vault/_foo'', semaphoreKey = ''/vault/_foo/2''\<rparr> []) =
     Inl (OtherError ''connection refused'')"
proof -
  let ?nodes = "[MkNode ''/vault/_foo/1'' ''you'' False [], MkNode ''/vault/_foo/2'' ''me'' False []]"
  let ?r = "\<lparr>Action = ''get'', Node = MkNode ''/vault/_foo'' [] True ?nodes, EtcdIndex = 7\<rparr>"
  let ?c1 = "\<lparr>value' = ''you'', semaphoreDirKey = ''/vault/_foo'', semaphoreKey = ''/vault/_foo/1''\<rparr>"
  let ?c2 = "\<lparr>value' = ''me'', semaphoreDirKey = ''/vault/_foo'', semaphoreKey = ''/vault/_foo/2''\<rparr>"
  let ?c0 = "\<lparr>value' = ''me'', semaphoreDirKey = ''/vault/_foo'', semaphoreKey = []\<rparr>"
  have r1: "scripted [Inr ?r] [] (ClientGet (semaphoreDirKey ?c1) True False) = Inr ?r"
    and r2: "scripted [Inr ?r] [] (ClientGet (semaphoreDirKey ?c2) True False) = Inr ?r"
    and r3: "scripted [Inl (OtherError ''connection refused'')] []
               (ClientGet (semaphoreDirKey ?c2) True False) = Inl (OtherError ''connection refused'')"
    by (simp_all add: scripted_def)
  have srt: "sorted (map Node_Key (Node_Nodes (Node ?r)))"
    by code_simp
  have low: "lowest_named (Node_Nodes (Node ?r)) = Some ''/vault/_foo/1''"
    by code_simp
  from r1 srt low isHeld_iff [of "scripted [Inr ?r]" ?c1 "[]"]
  have "fst (isHeld (scripted [Inr ?r]) ?c1 []) = Inr True"
    by simp
  then have 1: "isHeld (scripted [Inr ?r]) ?c1 [] = (Inr True, [Call (ClientGet ''/vault/_foo'' True False)])"
    using isHeld_True_history [of "scripted [Inr ?r]" ?c1 "[]"] by simp
  from r2 srt low isHeld_iff [of "scripted [Inr ?r]" ?c2 "[]"]
  have 2: "fst (isHeld (scripted [Inr ?r]) ?c2 []) = Inr False"
    by simp
  from isHeld_iff [of "scripted []" ?c0 "[]"]
  have 3: "isHeld (scripted []) ?c0 [] = (Inr False, [])"
    by simp
  from r3 isHeld_iff [of "scripted [Inl (OtherError ''connection refused'')]" ?c2 "[]"]
  have 4: "fst (isHeld (scripted [Inl (OtherError ''connection refused'')]) ?c2 []) =
             Inl (OtherError ''connection refused'')"
    by simp
  from 1 2 3 4 show ?thesis by blast
qed

subsection \<open>The lock: \<open>Lock\<close> and \<open>Unlock\<close>\<close>

text \<open>
  Claim C9. \<open>Lock\<close> on a handle that holds the lock returns the error
  \<open>EtcdLockHeldError\<close> and no channel, leaves the handle as it was, and makes one call
  only, the read of the queue directory: no queue entry is created.
\<close>

theorem Lock_already_held:
  assumes "fst (isHeld cl c h) = Inr True"
  shows "\<exists>h'. Lock cl c h = Some ((None, Some EtcdLockHeldError), c, h') \<and>
           h' = h @ [Call (ClientGet (semaphoreDirKey c) True False)] \<and>
           filter is_create h' = filter is_create h"
proof -
  have "isHeld cl c h = (Inr True, h @ [Call (ClientGet (semaphoreDirKey c) True False)])"
    using assms by (rule isHeld_True_history)
  then have "assertNotHeld cl c h =
      (Some EtcdLockHeldError, h @ [Call (ClientGet (semaphoreDirKey c) True False)])"
    by (simp add: assertNotHeld_def)
  then show ?thesis by (simp add: Lock_def)
qed

text \<open>The handle of the first queue entry calls \<open>Lock\<close> again.\<close>

theorem Lock_already_held_witness:
  "fst (isHeld (scripted [Inr \<lparr>Action = ''get'',
             Node = MkNode ''/vault/_foo'' [] True [MkNode ''/vault/_foo/1'' ''me'' False []],
             EtcdIndex = 7\<rparr>])
      \<lparr>value' = ''me'', semaphoreDirKey = ''/vault/_foo'', semaphoreKey = ''/vault/_foo/1''\<rparr> []) =
     Inr True \<and>
   Lock (scripted [Inr \<lparr>Action = ''get'',
             Node = MkNode ''/vault/_foo'' [] True [MkNode ''/vault/_foo/1'' ''me'' False []],
             EtcdIndex = 7\<rparr>])
      \<lparr>value' = ''me'', semaphoreDirKey = ''/vault/_foo'', semaphoreKey = ''/vault/_foo/1''\<rparr> [] =
     Some ((None, Some EtcdLockHeldError),
           \<lparr>value' = ''me'', semaphoreDirKey = ''/vault/_foo'', semaphoreKey = ''/vault/_foo/1''\<rparr>,
           [Call (ClientGet ''/vault/_foo'' True False)])"
proof -
  let ?r = "\<lparr>Action = ''get'',
             Node = MkNode ''/vault/_foo'' [] True [MkNode ''/vault/_foo/1'' ''me'' False []],
             EtcdIndex = 7\<rparr>"
  let ?c = "\<lparr>value' = ''me'', semaphoreDirKey = ''/vault/_foo'', semaphoreKey = ''/vault/_foo/1''\<rparr>"
  have held: "fst (isHeld (scripted [Inr ?r]) ?c []) = Inr True"
    by (simp add: isHeld_def getSemaphoreKey_def perform_def scripted_def)
  from Lock_already_held [OF held] held show ?thesis by simp
qed

text \<open>
  Claim C3, as the code has it. \<open>Unlock\<close> on a handle that holds the lock deletes the
  handle's queue entry and returns the error of that delete, whatever it is, a
  missing-key error included; it returns no error only when the delete succeeds.
\<close>

theorem Unlock_held:
  assumes "fst (isHeld cl c h) = Inr True"
  shows "Unlock cl c h =
     ((case cl (h @ [Call (ClientGet (semaphoreDirKey c) True False)])
              (ClientDelete (semaphoreKey c) False) of
         Inl err \<Rightarrow> Some err
       | Inr response \<Rightarrow> None),
      h @ [Call (ClientGet (semaphoreDirKey c) True False),
           Call (ClientDelete (semaphoreKey c) False)])"
proof -
  have "isHeld cl c h = (Inr True, h @ [Call (ClientGet (semaphoreDirKey c) True False)])"
    using assms by (rule isHeld_True_history)
  then have "assertHeld cl c h = (None, h @ [Call (ClientGet (semaphoreDirKey c) True False)])"
    by (simp add: assertHeld_def)
  then show ?thesis
    by (simp add: Unlock_def perform_def split: sum.splits)
qed

text \<open>The holder unlocks and the delete succeeds: no error.\<close>

theorem Unlock_held_witness:
  "fst (isHeld (scripted [Inr \<lparr>Action = ''get'',
             Node = MkNode ''/vault/_foo'' [] True [MkNode ''/vault/_foo/1'' ''me'' False []],
             EtcdIndex = 7\<rparr>,
           Inr \<lparr>Action = ''delete'', Node = MkNode ''/vault/_foo/1'' [] False [], EtcdIndex = 8\<rparr>])
      \<lparr>value' = ''me'', semaphoreDirKey = ''/vault/_foo'', semaphoreKey = ''/vault/_foo/1''\<rparr> []) =
     Inr True \<and>
   Unlock (scripted [Inr \<lparr>Action = ''get'',
             Node = MkNode ''/vault/_foo'' [] True [MkNode ''/vault/_foo/1'' ''me'' False []],
             EtcdIndex = 7\<rparr>,
           Inr \<lparr>Action = ''delete'', Node = MkNode ''/vault/_foo/1'' [] False [], EtcdIndex = 8\<rparr>])
      \<lparr>value' = ''me'', semaphoreDirKey = ''/vault/_foo'', semaphoreKey = ''/vault/_foo/1''\<rparr> [] =
     (None, [Call (ClientGet ''/vault/_foo'' True False),
             Call (ClientDelete ''/vault/_foo/1'' False)])"
proof -
  let ?r = "\<lparr>Action = ''get'',
             Node = MkNode ''/vault/_foo'' [] True [MkNode ''/vault/_foo/1'' ''me'' False []],
             EtcdIndex = 7\<rparr>"
  let ?d = "\<lparr>Action = ''delete'', Node = MkNode ''/vault/_foo/1'' [] False [], EtcdIndex = 8\<rparr>"
  let ?c = "\<lparr>value' = ''me'', semaphoreDirKey = ''/vault/_foo'', semaphoreKey = ''/vault/_foo/1''\<rparr>"
  have held: "fst (isHeld (scripted [Inr ?r, Inr ?d]) ?c []) = Inr True"
    by (simp add: isHeld_def getSemaphoreKey_def perform_def scripted_def)
  have del: "scripted [Inr ?r, Inr ?d] ([] @ [Call (ClientGet (semaphoreDirKey ?c) True False)])
               (ClientDelete (semaphoreKey ?c) False) = Inr ?d"
    by (simp add: scripted_def)
  from Unlock_held [OF held] del held show ?thesis by simp
qed

text \<open>The claim as stated fails: the holder unlocks, the delete fails with the
  missing-key error (the entry expired in between), and \<open>Unlock\<close> returns that error.\<close>

theorem Unlock_missing_key_counterexample:
  "fst (isHeld (scripted [Inr \<lparr>Action = ''get'',
             Node = MkNode ''/vault/_foo'' [] True [MkNode ''/vault/_foo/1'' ''me'' False []],
             EtcdIndex = 7\<rparr>,
           Inl (EtcdError 100 ''Key not found'' ''/vault/_foo/1'' 8)])
      \<lparr>value' = ''me'', semaphoreDirKey = ''/vault/_foo'', semaphoreKey = ''/vault/_foo/1''\<rparr> []) =
     Inr True \<and>
   errorIsMissingKey (EtcdError 100 ''Key not found'' ''/vault/_foo/1'' 8) \<and>
   Unlock (scripted [Inr \<lparr>Action = ''get'',
             Node = MkNode ''/vault/_foo'' [] True [MkNode ''/vault/_foo/1'' ''me'' False []],
             EtcdIndex = 7\<rparr>,
           Inl (EtcdError 100 ''Key not found'' ''/vault/_foo/1'' 8)])
      \<lparr>value' = ''me'', semaphoreDirKey = ''/vault/_foo'', semaphoreKey = ''/vault/_foo/1''\<rparr> [] =
     (Some (EtcdError 100 ''Key not found'' ''/vault/_foo/1'' 8),
      [Call (ClientGet ''/vault/_foo'' True False), Call (ClientDelete ''/vault/_foo/1'' False)])"
  by (simp add: Unlock_def assertHeld_def isHeld_def getSemaphoreKey_def perform_def
      scripted_def errorIsMissingKey_def)

lemma Lock_enqueued:
  assumes "assertNotHeld cl c h = (None, h1)"
    and "addSemaphoreKey cl c h1 = (Inr (semKey, idx0), h2)"
    and "getSemaphoreKey cl (c\<lparr>semaphoreKey := semKey\<rparr>) h2 =
           (Inr (currentSemaphoreKey, val, currentEtcdIndex), h3)"
  shows "Lock cl c h =
     (case Lock_loop cl (c\<lparr>semaphoreKey := semKey\<rparr>) semKey currentSemaphoreKey currentEtcdIndex h3 of
        None \<Rightarrow> None
      | Some (res, h4) \<Rightarrow> Some (res, c\<lparr>semaphoreKey := semKey\<rparr>, h4))"
  using assms by (simp add: Lock_def Let_def)

text \<open>
  Claim C1, as the code has it. While \<open>Lock\<close> waits (its queue entry is not the head)
  and the watch of the queue directory returns an error that is not an etcd error,
  \<open>Lock\<close> deletes the handle's queue entry and returns no channel and, as its error, the
  result of that delete: no error when the delete succeeds, the delete's error when it
  fails. Every pass of the waiting loop starts as a call of \<open>Lock_loop\<close>, and \<open>Lock\<close>
  returns what the loop returns.
\<close>

theorem Lock_cancelled:
  assumes "semKey \<noteq> currentSemaphoreKey"
    and "cl h (ClientWatch (semaphoreDirKey c) (currentEtcdIndex + 1) True True) = Inl err"
    and "\<not> is_EtcdError err"
  shows "Lock_loop cl c semKey currentSemaphoreKey currentEtcdIndex h =
     Some ((None,
            (case cl (h @ [Call (ClientWatch (semaphoreDirKey c) (currentEtcdIndex + 1) True True)])
                    (ClientDelete (semaphoreKey c) False) of
               Inl err' \<Rightarrow> Some err'
             | Inr response \<Rightarrow> None)),
           h @ [Call (ClientWatch (semaphoreDirKey c) (currentEtcdIndex + 1) True True),
                Call (ClientDelete (semaphoreKey c) False)])"
  using assms
  by (subst Lock_loop.simps) (simp add: perform_def split: sum.splits)

text \<open>A waiting handle whose watch is stopped, and whose delete then fails: \<open>Lock\<close>
  returns the delete's error.\<close>

theorem Lock_cancelled_witness:
  "Lock_loop (scripted [Inl (OtherError ''watch stopped''), Inl (OtherError ''connection refused'')])
      \<lparr>value' = ''me'', semaphoreDirKey = ''/vault/_foo'', semaphoreKey = ''/vault/_foo/2''\<rparr>
      ''/vault/_foo/2'' ''/vault/_foo/1'' 7 [] =
     Some ((None, Some (OtherError ''connection refused'')),
           [Call (ClientWatch ''/vault/_foo'' 8 True True),
            Call (ClientDelete ''/vault/_foo/2'' False)])"
proof -
  let ?cl = "scripted [Inl (OtherError ''watch stopped''), Inl (OtherError ''connection refused'')]"
  let ?c = "\<lparr>value' = ''me'', semaphoreDirKey = ''/vault/_foo'', semaphoreKey = ''/vault/_foo/2''\<rparr>"
  have waiting: "''/vault/_foo/2'' \<noteq> ''/vault/_foo/1''"
    by simp
  have stopped: "?cl [] (ClientWatch (semaphoreDirKey ?c) (7 + 1) True True) =
                   Inl (OtherError ''watch stopped'')"
    by (simp add: scripted_def)
  have other: "\<not> is_EtcdError (OtherError ''watch stopped'')"
    by simp
  have del: "?cl ([] @ [Call (ClientWatch (semaphoreDirKey ?c) (7 + 1) True True)])
               (ClientDelete (semaphoreKey ?c) False) = Inl (OtherError ''connection refused'')"
    by (simp add: scripted_def)
  from waiting stopped other del
    Lock_cancelled [of "''/vault/_foo/2''" "''/vault/_foo/1''" ?cl "[]" ?c 7
      "OtherError ''watch stopped''"]
  show ?thesis by simp
qed

text \<open>The claim as stated fails: a handle enqueues behind another, its watch is stopped
  through the stop channel, the delete of its entry succeeds, and \<open>Lock\<close> returns no
  error (and no channel).\<close>

theorem Lock_cancelled_counterexample:
  "Lock (scripted
      [Inr \<lparr>Action = ''create'', Node = MkNode ''/vault/_foo/2'' ''me'' False [], EtcdIndex = 7\<rparr>,
       Inr \<lparr>Action = ''get'',
             Node = MkNode ''/vault/_foo'' [] True
               [MkNode ''/vault/_foo/1'' ''you'' False [], MkNode ''/vault/_foo/2'' ''me'' False []],
             EtcdIndex = 7\<rparr>,
       Inl (OtherError ''watch stopped''),
       Inr \<lparr>Action = ''delete'', Node = MkNode ''/vault/_foo/2'' [] False [], EtcdIndex = 8\<rparr>])
     \<lparr>value' = ''me'', semaphoreDirKey = ''/vault/_foo'', semaphoreKey = []\<rparr> [] =
   Some ((None, None),
         \<lparr>value' = ''me'', semaphoreDirKey = ''/vault/_foo'', semaphoreKey = ''/vault/_foo/2''\<rparr>,
         [Call (ClientCreateInOrder ''/vault/_foo'' ''me'' 15),
          Call (ClientGet ''/vault/_foo'' True False),
          Call (ClientWatch ''/vault/_foo'' 8 True True),
          Call (ClientDelete ''/vault/_foo/2'' False)])"
  by code_simp

subsection \<open>The key-removal watcher\<close>

lemma watchForKeyRemoval_loop_gives_up:
  assumes "\<And>h'. \<exists>err. cl h' (ClientWatch key idx False False) = Inl err \<and> \<not> errorIsMissingKey err"
  shows "\<exists>h'. watchForKeyRemoval_loop cl key idx (int (Suc n)) h = Some h' \<and>
           length (filter is_watch h') = length (filter is_watch h) + Suc n \<and>
           length (filter (\<lambda>e. e = Sleep) h') = length (filter (\<lambda>e. e = Sleep) h) + n"
proof (induction n arbitrary: h)
  case 0
  obtain err where "cl h (ClientWatch key idx False False) = Inl err" "\<not> errorIsMissingKey err"
    using assms by blast
  then show ?case
    by (subst watchForKeyRemoval_loop.simps) (simp add: perform_def)
next
  case (Suc n)
  obtain err where err: "cl h (ClientWatch key idx False False) = Inl err" "\<not> errorIsMissingKey err"
    using assms by blast
  have "int (Suc (Suc n)) - 1 = int (Suc n)" by simp
  with err have "watchForKeyRemoval_loop cl key idx (int (Suc (Suc n))) h =
      watchForKeyRemoval_loop cl key idx (int (Suc n))
        ((h @ [Call (ClientWatch key idx False False)]) @ [Sleep])"
    by (subst watchForKeyRemoval_loop.simps)
       (simp add: perform_def del: of_nat_Suc, simp only: \<open>int (Suc (Suc n)) - 1 = int (Suc n)\<close>)
  with Suc.IH [of "(h @ [Call (ClientWatch key idx False False)]) @ [Sleep]"]
  show ?case by auto
qed

lemma watchForKeyRemoval_failing_watch:
  assumes "\<And>h'. \<exists>err. cl h' (ClientWatch key idx False False) = Inl err \<and> \<not> errorIsMissingKey err"
  shows "\<exists>h'. watchForKeyRemoval cl key idx h = Some (h' @ [Close]) \<and>
           length (filter is_watch h') = length (filter is_watch h) + 5 \<and>
           length (filter (\<lambda>e. e = Sleep) h') = length (filter (\<lambda>e. e = Sleep) h) + 4"
proof -
  have "EtcdWatchRetryMax = int (Suc 4)" by (simp add: EtcdWatchRetryMax_def)
  moreover have "\<exists>h'. watchForKeyRemoval_loop cl key idx (int (Suc 4)) h = Some h' \<and>
           length (filter is_watch h') = length (filter is_watch h) + Suc 4 \<and>
           length (filter (\<lambda>e. e = Sleep) h') = length (filter (\<lambda>e. e = Sleep) h) + 4"
    using assms by (rule watchForKeyRemoval_loop_gives_up)
  ultimately show ?thesis by (auto simp: watchForKeyRemoval_def)
qed

text \<open>
  Claim C4 fails on the code. The watch fails five times with an error that is not the
  missing-key error; the sixth call would report the deletion. The watcher makes five
  calls, that is four retries, and gives up after the fifth failure: the counter starts
  at \<open>EtcdWatchRetryMax = 5\<close> and the loop leaves when the decremented counter is 0.
\<close>

theorem watchForKeyRemoval_four_retries:
  "watchForKeyRemoval
     (scripted [Inl (OtherError ''timeout''), Inl (OtherError ''timeout''),
                Inl (OtherError ''timeout''), Inl (OtherError ''timeout''),
                Inl (OtherError ''timeout''),
                Inr \<lparr>Action = ''delete'', Node = MkNode ''/vault/_foo/1'' [] False [],
                     EtcdIndex = 9\<rparr>])
     ''/vault/_foo/1'' 8 [] =
   Some [Call (ClientWatch ''/vault/_foo/1'' 8 False False), Sleep,
         Call (ClientWatch ''/vault/_foo/1'' 8 False False), Sleep,
         Call (ClientWatch ''/vault/_foo/1'' 8 False False), Sleep,
         Call (ClientWatch ''/vault/_foo/1'' 8 False False), Sleep,
         Call (ClientWatch ''/vault/_foo/1'' 8 False False), Close]"
  by code_simp

subsection \<open>The lock-queue directory path\<close>

text \<open>
  \<open>filepath.Clean\<close> ends its result with the last element of the path when that is a
  real element (not empty, without a slash, not starting with a dot), whatever comes
  before it and however many slashes follow it.
\<close>

lemma clean_loop_slashes:
  "set sl \<subseteq> {CHR ''/''} \<Longrightarrow> clean_loop rooted sl out dotdot = out"
  by (induction sl) (simp_all add: IsPathSeparator_def)

lemma last_dropWhile_notsep:
  assumes "pre \<noteq> []" and "last pre = CHR ''/''"
  shows "dropWhile (\<lambda>x. \<not> IsPathSeparator x) pre \<noteq> [] \<and>
         last (dropWhile (\<lambda>x. \<not> IsPathSeparator x) pre) = CHR ''/''"
proof -
  have "last pre \<in> set pre" using assms(1) by simp
  then have ex: "\<exists>x \<in> set pre. \<not> \<not> IsPathSeparator x"
    using assms(2) by (auto simp: IsPathSeparator_def)
  then have ne: "dropWhile (\<lambda>x. \<not> IsPathSeparator x) pre \<noteq> []"
    by (simp add: dropWhile_eq_Nil_conv)
  have "pre = takeWhile (\<lambda>x. \<not> IsPathSeparator x) pre @ dropWhile (\<lambda>x. \<not> IsPathSeparator x) pre"
    by simp
  then have "last pre = last (dropWhile (\<lambda>x. \<not> IsPathSeparator x) pre)"
    using ne by (metis last_appendR)
  with ne assms(2) show ?thesis by simp
qed

lemma clean_loop_real_element:
  assumes "\<not> IsPathSeparator c"
    and "\<not> (c = CHR ''.'' \<and> (cs = [] \<or> IsPathSeparator (hd cs)))"
    and "\<not> (c = CHR ''.'' \<and> hd cs = CHR ''.'' \<and> (tl cs = [] \<or> IsPathSeparator (hd (tl cs))))"
  shows "clean_loop rooted (c # cs) out dotdot =
     clean_loop rooted (dropWhile (\<lambda>x. \<not> IsPathSeparator x) (c # cs))
       ((if rooted \<and> length out \<noteq> 1 \<or> \<not> rooted \<and> length out \<noteq> 0
         then out @ ''/'' else out) @ takeWhile (\<lambda>x. \<not> IsPathSeparator x) (c # cs)) dotdot"
proof -
  have "clean_loop rooted (c # cs) out dotdot =
     (let out' = (if rooted \<and> length out \<noteq> 1 \<or> \<not> rooted \<and> length out \<noteq> 0
                     then out @ ''/'' else out)
      in clean_loop rooted (dropWhile (\<lambda>x. \<not> IsPathSeparator x) (c # cs))
           (out' @ takeWhile (\<lambda>x. \<not> IsPathSeparator x) (c # cs)) dotdot)"
    by (subst clean_loop.simps) (simp only: assms if_False)
  then show ?thesis by (simp only: Let_def)
qed

lemma clean_loop_last_element:
  "src = pre @ e @ sl \<Longrightarrow> e \<noteq> [] \<Longrightarrow> CHR ''/'' \<notin> set e \<Longrightarrow> hd e \<noteq> CHR ''.'' \<Longrightarrow>
   set sl \<subseteq> {CHR ''/''} \<Longrightarrow> pre = [] \<or> last pre = CHR ''/'' \<Longrightarrow>
   \<exists>out'. clean_loop rooted src out dotdot = out' @ e"
proof (induction rooted src out dotdot arbitrary: pre rule: clean_loop.induct)
  case (1 rooted out dotdot)
  then show ?case by simp
next
  case (2 rooted c cs out dotdot)
  note prems = "2.prems"
  have hd_e: "hd e \<noteq> CHR ''/''" using prems(2,3) by (cases e) auto
  show ?case
  proof (cases "pre = []")
    case True
    \<comment> \<open>the element itself is read\<close>
    with prems have path: "c # cs = e @ sl" by simp
    with prems(2) have c: "c = hd e" by (cases e) auto
    have nsep: "\<forall>x \<in> set e. \<not> IsPathSeparator x"
      using prems(3) by (auto simp: IsPathSeparator_def)
    have sl: "sl = [] \<or> IsPathSeparator (hd sl)"
      using prems(5) by (cases sl) (auto simp: IsPathSeparator_def)
    have tw: "takeWhile (\<lambda>x. \<not> IsPathSeparator x) (e @ sl) = e"
      using nsep sl by (cases sl) (auto simp: takeWhile_append2)
    have dw: "dropWhile (\<lambda>x. \<not> IsPathSeparator x) (e @ sl) = sl"
      using nsep sl by (cases sl) (auto simp: dropWhile_append2)
    have "\<not> IsPathSeparator c" "c \<noteq> CHR ''.''"
      using c hd_e prems(4) by (simp_all add: IsPathSeparator_def)
    then have "clean_loop rooted (c # cs) out dotdot =
        clean_loop rooted (dropWhile (\<lambda>x. \<not> IsPathSeparator x) (c # cs))
          ((if rooted \<and> length out \<noteq> 1 \<or> \<not> rooted \<and> length out \<noteq> 0
            then out @ ''/'' else out) @ takeWhile (\<lambda>x. \<not> IsPathSeparator x) (c # cs)) dotdot"
      by (intro clean_loop_real_element) simp_all
    also have "\<dots> = clean_loop rooted sl
          ((if rooted \<and> length out \<noteq> 1 \<or> \<not> rooted \<and> length out \<noteq> 0
            then out @ ''/'' else out) @ e) dotdot"
      by (simp only: path tw dw)
    also have "\<dots> = (if rooted \<and> length out \<noteq> 1 \<or> \<not> rooted \<and> length out \<noteq> 0
            then out @ ''/'' else out) @ e"
      using prems(5) by (rule clean_loop_slashes)
    finally show ?thesis by blast
  next
    case False
    then obtain p ps where pre: "pre = p # ps" by (cases pre) auto
    with prems(1) have c: "c = p" and cs: "cs = ps @ e @ sl" by simp_all
    have last_pre: "last pre = CHR ''/''" using False prems(6) by simp
    have ps: "p \<noteq> CHR ''/'' \<Longrightarrow> ps \<noteq> [] \<and> last ps = CHR ''/''"
      using last_pre pre by (cases ps) auto
    have ps': "ps = [] \<or> last ps = CHR ''/''"
      using last_pre pre by (cases ps) auto
    show ?thesis
    proof (cases "IsPathSeparator c")
      case True
      then show ?thesis
        using "2.IH"(1) [OF True cs prems(2,3,4,5) ps'] by simp
    next
      case sep: False
      then have pne: "p \<noteq> CHR ''/''" using c by (simp add: IsPathSeparator_def)
      note psne = ps [OF pne]
      show ?thesis
      proof (cases "c = CHR ''.'' \<and> (cs = [] \<or> IsPathSeparator (hd cs))")
        case True
        then show ?thesis
          using "2.IH"(2) [OF sep True cs prems(2,3,4,5) ps'] sep by simp
      next
        case dot: False
        show ?thesis
        proof (cases "c = CHR ''.'' \<and> hd cs = CHR ''.'' \<and> (tl cs = [] \<or> IsPathSeparator (hd (tl cs)))")
          case True
          then have "hd ps = CHR ''.''" using cs psne by (cases ps) auto
          then obtain qs where qs: "ps = CHR ''.'' # qs" using psne by (cases ps) auto
          with psne have qne: "qs \<noteq> [] \<and> last qs = CHR ''/''" by (cases qs) auto
          have tl: "tl cs = qs @ e @ sl" using cs qs by simp
          have q': "qs = [] \<or> last qs = CHR ''/''" using qne by simp
          show ?thesis
          proof (cases "length out > dotdot")
            case a: True
            from "2.IH"(3) [OF sep dot True a tl prems(2,3,4,5) q'] sep dot True a
            show ?thesis by simp
          next
            case a: False
            show ?thesis
            proof (cases rooted)
              case r: True
              then have r': "\<not> \<not> rooted" by simp
              from "2.IH"(5) [OF sep dot True a r' tl prems(2,3,4,5) q'] sep dot True a r
              show ?thesis by simp
            next
              case r: False
              from "2.IH"(4) [OF sep dot True a r refl tl prems(2,3,4,5) q'] sep dot True a r
              show ?thesis by (simp add: Let_def)
            qed
          qed
        next
          case dotdot: False
          let ?P = "\<lambda>x. \<not> IsPathSeparator x"
          have lastin: "last pre \<in> set pre" using False by simp
          have "\<exists>x \<in> set pre. \<not> ?P x"
            using lastin last_pre by (auto simp: IsPathSeparator_def)
          then obtain x where x: "x \<in> set pre" "\<not> ?P x" by blast
          have dw: "dropWhile ?P (c # cs) = dropWhile ?P pre @ e @ sl"
            using prems(1) x dropWhile_append1 [of x pre ?P "e @ sl"] by simp
          have l: "dropWhile ?P pre = [] \<or> last (dropWhile ?P pre) = CHR ''/''"
            using last_dropWhile_notsep [OF False last_pre] by simp
          from "2.IH"(6) [OF sep dot dotdot refl dw prems(2,3,4,5) l]
          show ?thesis by (simp only: clean_loop_real_element [OF sep dot dotdot])
        qed
      qed
    qed
  qed
qed

lemma Clean_last_element:
  assumes "e \<noteq> []" and "CHR ''/'' \<notin> set e" and "hd e \<noteq> CHR ''.''"
    and "set sl \<subseteq> {CHR ''/''}" and "pre = [] \<or> last pre = CHR ''/''"
  shows "\<exists>out'. Clean (pre @ e @ sl) = out' @ e"
proof (cases "pre = []")
  case True
  have "hd e \<noteq> CHR ''/''" using assms(1,2) by (cases e) auto
  then have nr: "\<not> IsPathSeparator (hd (pre @ e @ sl))"
    using True assms(1) by (simp add: IsPathSeparator_def)
  obtain out' where "clean_loop False (pre @ e @ sl) [] 0 = out' @ e"
    using clean_loop_last_element [OF refl assms, of False "[]" 0] by blast
  with nr assms(1) True show ?thesis by (simp add: Clean_def)
next
  case False
  then obtain p ps where pre: "pre = p # ps" by (cases pre) auto
  have ps: "ps = [] \<or> last ps = CHR ''/''"
    using assms(5) pre by (cases ps) auto
  show ?thesis
  proof (cases "IsPathSeparator p")
    case True
    obtain out' where "clean_loop True (ps @ e @ sl) ''/'' 1 = out' @ e"
      using clean_loop_last_element [OF refl assms(1,2,3,4) ps, of True "''/''" 1] by blast
    with True assms(1) pre show ?thesis by (simp add: Clean_def)
  next
    case nr: False
    obtain out' where "clean_loop False (pre @ e @ sl) [] 0 = out' @ e"
      using clean_loop_last_element [OF refl assms, of False "[]" 0] by blast
    with nr assms(1) pre show ?thesis by (simp add: Clean_def)
  qed
qed

lemma Clean_not_empty: "Clean p \<noteq> []"
  by (simp add: Clean_def Let_def)

lemma Base_shape: "Base p \<noteq> [] \<and> (Base p = ''/'' \<or> CHR ''/'' \<notin> set (Base p))"
proof -
  let ?l = "rev (takeWhile (\<lambda>c. \<not> IsPathSeparator c)
                   (rev (rev (dropWhile IsPathSeparator (rev p)))))"
  have "CHR ''/'' \<notin> set ?l"
    by (auto simp: IsPathSeparator_def dest: set_takeWhileD)
  then show ?thesis
    by (simp add: Base_def Let_def)
qed

lemma lock_element:
  "\<exists>e sl. EtcdNodeLockPrefix @ Base key @ ''/'' = e @ sl \<and> e \<noteq> [] \<and> CHR ''/'' \<notin> set e \<and>
          hd e \<noteq> CHR ''.'' \<and> set sl \<subseteq> {CHR ''/''}"
proof (cases "Base key = ''/''")
  case True
  then show ?thesis
    by (intro exI [of _ "''_''"] exI [of _ "''//''"]) (simp add: EtcdNodeLockPrefix_def)
next
  case False
  then have "CHR ''/'' \<notin> set (Base key)" using Base_shape [of key] by blast
  then show ?thesis
    by (intro exI [of _ "''_'' @ Base key"] exI [of _ "''/''"]) (simp add: EtcdNodeLockPrefix_def)
qed

lemma nodePathLock_last_element:
  "\<exists>out' e. nodePathLock b key = out' @ e \<and> e \<noteq> [] \<and> CHR ''/'' \<notin> set e"
proof -
  obtain e sl where L: "EtcdNodeLockPrefix @ Base key @ ''/'' = e @ sl"
    and e: "e \<noteq> []" "CHR ''/'' \<notin> set e" "hd e \<noteq> CHR ''.''" "set sl \<subseteq> {CHR ''/''}"
    using lock_element [of key] by blast
  have d: "Dir key \<noteq> []" by (simp add: Dir_def Clean_not_empty)
  have "\<exists>pre. (pre = [] \<or> last pre = CHR ''/'') \<and>
          nodePathLock b key = Clean (pre @ e @ sl)"
  proof (cases "path b = []")
    case True
    with d L show ?thesis
      by (intro exI [of _ "Dir key @ ''/''"]) (simp add: nodePathLock_def)
  next
    case False
    with d L show ?thesis
      by (intro exI [of _ "path b @ ''/'' @ Dir key @ ''/''"]) (simp add: nodePathLock_def)
  qed
  then obtain pre where "pre = [] \<or> last pre = CHR ''/''"
    and "nodePathLock b key = Clean (pre @ e @ sl)" by blast
  with Clean_last_element [OF e, of pre] e show ?thesis by auto
qed

lemma nodePathLock_no_slash:
  "nodePathLock b key \<noteq> [] \<and> last (nodePathLock b key) \<noteq> CHR ''/''"
proof -
  obtain out' e where "nodePathLock b key = out' @ e" "e \<noteq> []" "CHR ''/'' \<notin> set e"
    using nodePathLock_last_element by blast
  moreover from this have "last e \<in> set e" by simp
  ultimately show ?thesis by (metis Nil_is_append_conv last_appendR)
qed

text \<open>
  Claim C2 fails on the code: \<open>nodePathLock\<close> passes the slash to \<open>filepath.Join\<close> inside
  the last element, and \<open>Join\<close> cleans its result, so the path has no trailing slash:
  for the root \<open>/vault\<close> and the key \<open>foo\<close> it is \<open>/vault/_foo\<close>, and for no root and no
  key does it end with a slash.
\<close>

theorem nodePathLock_no_trailing_slash:
  "nodePathLock \<lparr>path = ''/vault''\<rparr> ''foo'' = ''/vault/_foo'' \<and>
   (\<forall>b key. nodePathLock b key \<noteq> [] \<and> last (nodePathLock b key) \<noteq> CHR ''/'')"
proof
  show "nodePathLock \<lparr>path = ''/vault''\<rparr> ''foo'' = ''/vault/_foo''"
    by code_simp
  show "\<forall>b key. nodePathLock b key \<noteq> [] \<and> last (nodePathLock b key) \<noteq> CHR ''/''"
    using nodePathLock_no_slash by blast
qed

end
